theory Spec2Isabelle
  imports Main "HOL-Library.Word" "HOL-Library.Signed_Division"
begin

unbundle bit_operations_syntax

section \<open>Fixed-point FFT of uSDR-pico (fix\_fft.c)\<close>

text \<open>
  The C types: \<open>int16_t\<close> is a 16-bit word read in two's complement (\<open>sint\<close>),
  \<open>int32_t\<close> a 32-bit one. Word addition, subtraction and negation wrap modulo
  \<open>2 ^ 16\<close>, which is what the narrowing assignments of the C code do to the
  \<open>int\<close>-typed results of the promoted operands.
\<close>

type_synonym int16 = "16 word"
type_synonym int32 = "32 word"

subsection \<open>Constants of fix\_fft.h\<close>

text \<open>
  Modelled from the spec: the header fix\_fft.h is not part of the sources at hand. The
  spec fixes the transform length at 1024 points and the number of stages at
  \<open>log2 1024 = 10\<close>; fix\_fft.c itself says "The size is fixed at 1024".
\<close>

definition FFT_SIZE :: nat where
  "FFT_SIZE = 1024"

definition FFT_ORDER :: nat where
  "FFT_ORDER = 10"

subsection \<open>The lookup tables\<close>

text \<open>\<open>int16_t Sine[3*FFT_SIZE/4]\<close>, as initialised in the source.\<close>

definition Sine :: "int16 list" where
  "Sine = [
    0, 201, 402, 603, 804, 1005, 1206, 1406,
    1607, 1808, 2009, 2209, 2410, 2610, 2811, 3011,
    3211, 3411, 3611, 3811, 4011, 4210, 4409, 4608,
    4807, 5006, 5205, 5403, 5601, 5799, 5997, 6195,
    6392, 6589, 6786, 6982, 7179, 7375, 7571, 7766,
    7961, 8156, 8351, 8545, 8739, 8932, 9126, 9319,
    9511, 9703, 9895, 10087, 10278, 10469, 10659, 10849,
    11038, 11227, 11416, 11604, 11792, 11980, 12166, 12353,
    12539, 12724, 12909, 13094, 13278, 13462, 13645, 13827,
    14009, 14191, 14372, 14552, 14732, 14911, 15090, 15268,
    15446, 15623, 15799, 15975, 16150, 16325, 16499, 16672,
    16845, 17017, 17189, 17360, 17530, 17699, 17868, 18036,
    18204, 18371, 18537, 18702, 18867, 19031, 19194, 19357,
    19519, 19680, 19840, 20000, 20159, 20317, 20474, 20631,
    20787, 20942, 21096, 21249, 21402, 21554, 21705, 21855,
    22004, 22153, 22301, 22448, 22594, 22739, 22883, 23027,
    23169, 23311, 23452, 23592, 23731, 23869, 24006, 24143,
    24278, 24413, 24546, 24679, 24811, 24942, 25072, 25201,
    25329, 25456, 25582, 25707, 25831, 25954, 26077, 26198,
    26318, 26437, 26556, 26673, 26789, 26905, 27019, 27132,
    27244, 27355, 27466, 27575, 27683, 27790, 27896, 28001,
    28105, 28208, 28309, 28410, 28510, 28608, 28706, 28802,
    28897, 28992, 29085, 29177, 29268, 29358, 29446, 29534,
    29621, 29706, 29790, 29873, 29955, 30036, 30116, 30195,
    30272, 30349, 30424, 30498, 30571, 30643, 30713, 30783,
    30851, 30918, 30984, 31049, 31113, 31175, 31236, 31297,
    31356, 31413, 31470, 31525, 31580, 31633, 31684, 31735,
    31785, 31833, 31880, 31926, 31970, 32014, 32056, 32097,
    32137, 32176, 32213, 32249, 32284, 32318, 32350, 32382,
    32412, 32441, 32468, 32495, 32520, 32544, 32567, 32588,
    32609, 32628, 32646, 32662, 32678, 32692, 32705, 32717,
    32727, 32736, 32744, 32751, 32757, 32761, 32764, 32766,
    32767, 32766, 32764, 32761, 32757, 32751, 32744, 32736,
    32727, 32717, 32705, 32692, 32678, 32662, 32646, 32628,
    32609, 32588, 32567, 32544, 32520, 32495, 32468, 32441,
    32412, 32382, 32350, 32318, 32284, 32249, 32213, 32176,
    32137, 32097, 32056, 32014, 31970, 31926, 31880, 31833,
    31785, 31735, 31684, 31633, 31580, 31525, 31470, 31413,
    31356, 31297, 31236, 31175, 31113, 31049, 30984, 30918,
    30851, 30783, 30713, 30643, 30571, 30498, 30424, 30349,
    30272, 30195, 30116, 30036, 29955, 29873, 29790, 29706,
    29621, 29534, 29446, 29358, 29268, 29177, 29085, 28992,
    28897, 28802, 28706, 28608, 28510, 28410, 28309, 28208,
    28105, 28001, 27896, 27790, 27683, 27575, 27466, 27355,
    27244, 27132, 27019, 26905, 26789, 26673, 26556, 26437,
    26318, 26198, 26077, 25954, 25831, 25707, 25582, 25456,
    25329, 25201, 25072, 24942, 24811, 24679, 24546, 24413,
    24278, 24143, 24006, 23869, 23731, 23592, 23452, 23311,
    23169, 23027, 22883, 22739, 22594, 22448, 22301, 22153,
    22004, 21855, 21705, 21554, 21402, 21249, 21096, 20942,
    20787, 20631, 20474, 20317, 20159, 20000, 19840, 19680,
    19519, 19357, 19194, 19031, 18867, 18702, 18537, 18371,
    18204, 18036, 17868, 17699, 17530, 17360, 17189, 17017,
    16845, 16672, 16499, 16325, 16150, 15975, 15799, 15623,
    15446, 15268, 15090, 14911, 14732, 14552, 14372, 14191,
    14009, 13827, 13645, 13462, 13278, 13094, 12909, 12724,
    12539, 12353, 12166, 11980, 11792, 11604, 11416, 11227,
    11038, 10849, 10659, 10469, 10278, 10087, 9895, 9703,
    9511, 9319, 9126, 8932, 8739, 8545, 8351, 8156,
    7961, 7766, 7571, 7375, 7179, 6982, 6786, 6589,
    6392, 6195, 5997, 5799, 5601, 5403, 5205, 5006,
    4807, 4608, 4409, 4210, 4011, 3811, 3611, 3411,
    3211, 3011, 2811, 2610, 2410, 2209, 2009, 1808,
    1607, 1406, 1206, 1005, 804, 603, 402, 201,
    0, -201, -402, -603, -804, -1005, -1206, -1406,
    -1607, -1808, -2009, -2209, -2410, -2610, -2811, -3011,
    -3211, -3411, -3611, -3811, -4011, -4210, -4409, -4608,
    -4807, -5006, -5205, -5403, -5601, -5799, -5997, -6195,
    -6392, -6589, -6786, -6982, -7179, -7375, -7571, -7766,
    -7961, -8156, -8351, -8545, -8739, -8932, -9126, -9319,
    -9511, -9703, -9895, -10087, -10278, -10469, -10659, -10849,
    -11038, -11227, -11416, -11604, -11792, -11980, -12166, -12353,
    -12539, -12724, -12909, -13094, -13278, -13462, -13645, -13827,
    -14009, -14191, -14372, -14552, -14732, -14911, -15090, -15268,
    -15446, -15623, -15799, -15975, -16150, -16325, -16499, -16672,
    -16845, -17017, -17189, -17360, -17530, -17699, -17868, -18036,
    -18204, -18371, -18537, -18702, -18867, -19031, -19194, -19357,
    -19519, -19680, -19840, -20000, -20159, -20317, -20474, -20631,
    -20787, -20942, -21096, -21249, -21402, -21554, -21705, -21855,
    -22004, -22153, -22301, -22448, -22594, -22739, -22883, -23027,
    -23169, -23311, -23452, -23592, -23731, -23869, -24006, -24143,
    -24278, -24413, -24546, -24679, -24811, -24942, -25072, -25201,
    -25329, -25456, -25582, -25707, -25831, -25954, -26077, -26198,
    -26318, -26437, -26556, -26673, -26789, -26905, -27019, -27132,
    -27244, -27355, -27466, -27575, -27683, -27790, -27896, -28001,
    -28105, -28208, -28309, -28410, -28510, -28608, -28706, -28802,
    -28897, -28992, -29085, -29177, -29268, -29358, -29446, -29534,
    -29621, -29706, -29790, -29873, -29955, -30036, -30116, -30195,
    -30272, -30349, -30424, -30498, -30571, -30643, -30713, -30783,
    -30851, -30918, -30984, -31049, -31113, -31175, -31236, -31297,
    -31356, -31413, -31470, -31525, -31580, -31633, -31684, -31735,
    -31785, -31833, -31880, -31926, -31970, -32014, -32056, -32097,
    -32137, -32176, -32213, -32249, -32284, -32318, -32350, -32382,
    -32412, -32441, -32468, -32495, -32520, -32544, -32567, -32588,
    -32609, -32628, -32646, -32662, -32678, -32692, -32705, -32717,
    -32727, -32736, -32744, -32751, -32757, -32761, -32764, -32766]"

text \<open>\<open>static int16_t bitrev[FFT_SIZE]\<close>, as initialised in the source.\<close>

definition bitrev :: "int16 list" where
  "bitrev = [
    0x000, 0x200, 0x100, 0x300, 0x080, 0x280, 0x180, 0x380, 0x040, 0x240, 0x140, 0x340, 0x0c0, 0x2c0, 0x1c0, 0x3c0,
    0x020, 0x220, 0x120, 0x320, 0x0a0, 0x2a0, 0x1a0, 0x3a0, 0x060, 0x260, 0x160, 0x360, 0x0e0, 0x2e0, 0x1e0, 0x3e0,
    0x010, 0x210, 0x110, 0x310, 0x090, 0x290, 0x190, 0x390, 0x050, 0x250, 0x150, 0x350, 0x0d0, 0x2d0, 0x1d0, 0x3d0,
    0x030, 0x230, 0x130, 0x330, 0x0b0, 0x2b0, 0x1b0, 0x3b0, 0x070, 0x270, 0x170, 0x370, 0x0f0, 0x2f0, 0x1f0, 0x3f0,
    0x008, 0x208, 0x108, 0x308, 0x088, 0x288, 0x188, 0x388, 0x048, 0x248, 0x148, 0x348, 0x0c8, 0x2c8, 0x1c8, 0x3c8,
    0x028, 0x228, 0x128, 0x328, 0x0a8, 0x2a8, 0x1a8, 0x3a8, 0x068, 0x268, 0x168, 0x368, 0x0e8, 0x2e8, 0x1e8, 0x3e8,
    0x018, 0x218, 0x118, 0x318, 0x098, 0x298, 0x198, 0x398, 0x058, 0x258, 0x158, 0x358, 0x0d8, 0x2d8, 0x1d8, 0x3d8,
    0x038, 0x238, 0x138, 0x338, 0x0b8, 0x2b8, 0x1b8, 0x3b8, 0x078, 0x278, 0x178, 0x378, 0x0f8, 0x2f8, 0x1f8, 0x3f8,
    0x004, 0x204, 0x104, 0x304, 0x084, 0x284, 0x184, 0x384, 0x044, 0x244, 0x144, 0x344, 0x0c4, 0x2c4, 0x1c4, 0x3c4,
    0x024, 0x224, 0x124, 0x324, 0x0a4, 0x2a4, 0x1a4, 0x3a4, 0x064, 0x264, 0x164, 0x364, 0x0e4, 0x2e4, 0x1e4, 0x3e4,
    0x014, 0x214, 0x114, 0x314, 0x094, 0x294, 0x194, 0x394, 0x054, 0x254, 0x154, 0x354, 0x0d4, 0x2d4, 0x1d4, 0x3d4,
    0x034, 0x234, 0x134, 0x334, 0x0b4, 0x2b4, 0x1b4, 0x3b4, 0x074, 0x274, 0x174, 0x374, 0x0f4, 0x2f4, 0x1f4, 0x3f4,
    0x00c, 0x20c, 0x10c, 0x30c, 0x08c, 0x28c, 0x18c, 0x38c, 0x04c, 0x24c, 0x14c, 0x34c, 0x0cc, 0x2cc, 0x1cc, 0x3cc,
    0x02c, 0x22c, 0x12c, 0x32c, 0x0ac, 0x2ac, 0x1ac, 0x3ac, 0x06c, 0x26c, 0x16c, 0x36c, 0x0ec, 0x2ec, 0x1ec, 0x3ec,
    0x01c, 0x21c, 0x11c, 0x31c, 0x09c, 0x29c, 0x19c, 0x39c, 0x05c, 0x25c, 0x15c, 0x35c, 0x0dc, 0x2dc, 0x1dc, 0x3dc,
    0x03c, 0x23c, 0x13c, 0x33c, 0x0bc, 0x2bc, 0x1bc, 0x3bc, 0x07c, 0x27c, 0x17c, 0x37c, 0x0fc, 0x2fc, 0x1fc, 0x3fc,
    0x002, 0x202, 0x102, 0x302, 0x082, 0x282, 0x182, 0x382, 0x042, 0x242, 0x142, 0x342, 0x0c2, 0x2c2, 0x1c2, 0x3c2,
    0x022, 0x222, 0x122, 0x322, 0x0a2, 0x2a2, 0x1a2, 0x3a2, 0x062, 0x262, 0x162, 0x362, 0x0e2, 0x2e2, 0x1e2, 0x3e2,
    0x012, 0x212, 0x112, 0x312, 0x092, 0x292, 0x192, 0x392, 0x052, 0x252, 0x152, 0x352, 0x0d2, 0x2d2, 0x1d2, 0x3d2,
    0x032, 0x232, 0x132, 0x332, 0x0b2, 0x2b2, 0x1b2, 0x3b2, 0x072, 0x272, 0x172, 0x372, 0x0f2, 0x2f2, 0x1f2, 0x3f2,
    0x00a, 0x20a, 0x10a, 0x30a, 0x08a, 0x28a, 0x18a, 0x38a, 0x04a, 0x24a, 0x14a, 0x34a, 0x0ca, 0x2ca, 0x1ca, 0x3ca,
    0x02a, 0x22a, 0x12a, 0x32a, 0x0aa, 0x2aa, 0x1aa, 0x3aa, 0x06a, 0x26a, 0x16a, 0x36a, 0x0ea, 0x2ea, 0x1ea, 0x3ea,
    0x01a, 0x21a, 0x11a, 0x31a, 0x09a, 0x29a, 0x19a, 0x39a, 0x05a, 0x25a, 0x15a, 0x35a, 0x0da, 0x2da, 0x1da, 0x3da,
    0x03a, 0x23a, 0x13a, 0x33a, 0x0ba, 0x2ba, 0x1ba, 0x3ba, 0x07a, 0x27a, 0x17a, 0x37a, 0x0fa, 0x2fa, 0x1fa, 0x3fa,
    0x006, 0x206, 0x106, 0x306, 0x086, 0x286, 0x186, 0x386, 0x046, 0x246, 0x146, 0x346, 0x0c6, 0x2c6, 0x1c6, 0x3c6,
    0x026, 0x226, 0x126, 0x326, 0x0a6, 0x2a6, 0x1a6, 0x3a6, 0x066, 0x266, 0x166, 0x366, 0x0e6, 0x2e6, 0x1e6, 0x3e6,
    0x016, 0x216, 0x116, 0x316, 0x096, 0x296, 0x196, 0x396, 0x056, 0x256, 0x156, 0x356, 0x0d6, 0x2d6, 0x1d6, 0x3d6,
    0x036, 0x236, 0x136, 0x336, 0x0b6, 0x2b6, 0x1b6, 0x3b6, 0x076, 0x276, 0x176, 0x376, 0x0f6, 0x2f6, 0x1f6, 0x3f6,
    0x00e, 0x20e, 0x10e, 0x30e, 0x08e, 0x28e, 0x18e, 0x38e, 0x04e, 0x24e, 0x14e, 0x34e, 0x0ce, 0x2ce, 0x1ce, 0x3ce,
    0x02e, 0x22e, 0x12e, 0x32e, 0x0ae, 0x2ae, 0x1ae, 0x3ae, 0x06e, 0x26e, 0x16e, 0x36e, 0x0ee, 0x2ee, 0x1ee, 0x3ee,
    0x01e, 0x21e, 0x11e, 0x31e, 0x09e, 0x29e, 0x19e, 0x39e, 0x05e, 0x25e, 0x15e, 0x35e, 0x0de, 0x2de, 0x1de, 0x3de,
    0x03e, 0x23e, 0x13e, 0x33e, 0x0be, 0x2be, 0x1be, 0x3be, 0x07e, 0x27e, 0x17e, 0x37e, 0x0fe, 0x2fe, 0x1fe, 0x3fe,
    0x001, 0x201, 0x101, 0x301, 0x081, 0x281, 0x181, 0x381, 0x041, 0x241, 0x141, 0x341, 0x0c1, 0x2c1, 0x1c1, 0x3c1,
    0x021, 0x221, 0x121, 0x321, 0x0a1, 0x2a1, 0x1a1, 0x3a1, 0x061, 0x261, 0x161, 0x361, 0x0e1, 0x2e1, 0x1e1, 0x3e1,
    0x011, 0x211, 0x111, 0x311, 0x091, 0x291, 0x191, 0x391, 0x051, 0x251, 0x151, 0x351, 0x0d1, 0x2d1, 0x1d1, 0x3d1,
    0x031, 0x231, 0x131, 0x331, 0x0b1, 0x2b1, 0x1b1, 0x3b1, 0x071, 0x271, 0x171, 0x371, 0x0f1, 0x2f1, 0x1f1, 0x3f1,
    0x009, 0x209, 0x109, 0x309, 0x089, 0x289, 0x189, 0x389, 0x049, 0x249, 0x149, 0x349, 0x0c9, 0x2c9, 0x1c9, 0x3c9,
    0x029, 0x229, 0x129, 0x329, 0x0a9, 0x2a9, 0x1a9, 0x3a9, 0x069, 0x269, 0x169, 0x369, 0x0e9, 0x2e9, 0x1e9, 0x3e9,
    0x019, 0x219, 0x119, 0x319, 0x099, 0x299, 0x199, 0x399, 0x059, 0x259, 0x159, 0x359, 0x0d9, 0x2d9, 0x1d9, 0x3d9,
    0x039, 0x239, 0x139, 0x339, 0x0b9, 0x2b9, 0x1b9, 0x3b9, 0x079, 0x279, 0x179, 0x379, 0x0f9, 0x2f9, 0x1f9, 0x3f9,
    0x005, 0x205, 0x105, 0x305, 0x085, 0x285, 0x185, 0x385, 0x045, 0x245, 0x145, 0x345, 0x0c5, 0x2c5, 0x1c5, 0x3c5,
    0x025, 0x225, 0x125, 0x325, 0x0a5, 0x2a5, 0x1a5, 0x3a5, 0x065, 0x265, 0x165, 0x365, 0x0e5, 0x2e5, 0x1e5, 0x3e5,
    0x015, 0x215, 0x115, 0x315, 0x095, 0x295, 0x195, 0x395, 0x055, 0x255, 0x155, 0x355, 0x0d5, 0x2d5, 0x1d5, 0x3d5,
    0x035, 0x235, 0x135, 0x335, 0x0b5, 0x2b5, 0x1b5, 0x3b5, 0x075, 0x275, 0x175, 0x375, 0x0f5, 0x2f5, 0x1f5, 0x3f5,
    0x00d, 0x20d, 0x10d, 0x30d, 0x08d, 0x28d, 0x18d, 0x38d, 0x04d, 0x24d, 0x14d, 0x34d, 0x0cd, 0x2cd, 0x1cd, 0x3cd,
    0x02d, 0x22d, 0x12d, 0x32d, 0x0ad, 0x2ad, 0x1ad, 0x3ad, 0x06d, 0x26d, 0x16d, 0x36d, 0x0ed, 0x2ed, 0x1ed, 0x3ed,
    0x01d, 0x21d, 0x11d, 0x31d, 0x09d, 0x29d, 0x19d, 0x39d, 0x05d, 0x25d, 0x15d, 0x35d, 0x0dd, 0x2dd, 0x1dd, 0x3dd,
    0x03d, 0x23d, 0x13d, 0x33d, 0x0bd, 0x2bd, 0x1bd, 0x3bd, 0x07d, 0x27d, 0x17d, 0x37d, 0x0fd, 0x2fd, 0x1fd, 0x3fd,
    0x003, 0x203, 0x103, 0x303, 0x083, 0x283, 0x183, 0x383, 0x043, 0x243, 0x143, 0x343, 0x0c3, 0x2c3, 0x1c3, 0x3c3,
    0x023, 0x223, 0x123, 0x323, 0x0a3, 0x2a3, 0x1a3, 0x3a3, 0x063, 0x263, 0x163, 0x363, 0x0e3, 0x2e3, 0x1e3, 0x3e3,
    0x013, 0x213, 0x113, 0x313, 0x093, 0x293, 0x193, 0x393, 0x053, 0x253, 0x153, 0x353, 0x0d3, 0x2d3, 0x1d3, 0x3d3,
    0x033, 0x233, 0x133, 0x333, 0x0b3, 0x2b3, 0x1b3, 0x3b3, 0x073, 0x273, 0x173, 0x373, 0x0f3, 0x2f3, 0x1f3, 0x3f3,
    0x00b, 0x20b, 0x10b, 0x30b, 0x08b, 0x28b, 0x18b, 0x38b, 0x04b, 0x24b, 0x14b, 0x34b, 0x0cb, 0x2cb, 0x1cb, 0x3cb,
    0x02b, 0x22b, 0x12b, 0x32b, 0x0ab, 0x2ab, 0x1ab, 0x3ab, 0x06b, 0x26b, 0x16b, 0x36b, 0x0eb, 0x2eb, 0x1eb, 0x3eb,
    0x01b, 0x21b, 0x11b, 0x31b, 0x09b, 0x29b, 0x19b, 0x39b, 0x05b, 0x25b, 0x15b, 0x35b, 0x0db, 0x2db, 0x1db, 0x3db,
    0x03b, 0x23b, 0x13b, 0x33b, 0x0bb, 0x2bb, 0x1bb, 0x3bb, 0x07b, 0x27b, 0x17b, 0x37b, 0x0fb, 0x2fb, 0x1fb, 0x3fb,
    0x007, 0x207, 0x107, 0x307, 0x087, 0x287, 0x187, 0x387, 0x047, 0x247, 0x147, 0x347, 0x0c7, 0x2c7, 0x1c7, 0x3c7,
    0x027, 0x227, 0x127, 0x327, 0x0a7, 0x2a7, 0x1a7, 0x3a7, 0x067, 0x267, 0x167, 0x367, 0x0e7, 0x2e7, 0x1e7, 0x3e7,
    0x017, 0x217, 0x117, 0x317, 0x097, 0x297, 0x197, 0x397, 0x057, 0x257, 0x157, 0x357, 0x0d7, 0x2d7, 0x1d7, 0x3d7,
    0x037, 0x237, 0x137, 0x337, 0x0b7, 0x2b7, 0x1b7, 0x3b7, 0x077, 0x277, 0x177, 0x377, 0x0f7, 0x2f7, 0x1f7, 0x3f7,
    0x00f, 0x20f, 0x10f, 0x30f, 0x08f, 0x28f, 0x18f, 0x38f, 0x04f, 0x24f, 0x14f, 0x34f, 0x0cf, 0x2cf, 0x1cf, 0x3cf,
    0x02f, 0x22f, 0x12f, 0x32f, 0x0af, 0x2af, 0x1af, 0x3af, 0x06f, 0x26f, 0x16f, 0x36f, 0x0ef, 0x2ef, 0x1ef, 0x3ef,
    0x01f, 0x21f, 0x11f, 0x31f, 0x09f, 0x29f, 0x19f, 0x39f, 0x05f, 0x25f, 0x15f, 0x35f, 0x0df, 0x2df, 0x1df, 0x3df,
    0x03f, 0x23f, 0x13f, 0x33f, 0x0bf, 0x2bf, 0x1bf, 0x3bf, 0x07f, 0x27f, 0x17f, 0x37f, 0x0ff, 0x2ff, 0x1ff, 0x3ff]"

subsection \<open>FIX\_MPY\<close>

text \<open>
  \<open>c = (int32_t)a * (int32_t)b; c = c + 0x4000; c = c >> 15; return (int16_t)c\<close>.
  The shift of the signed 32-bit value is the arithmetic one (\<open>signed_drop_bit\<close>), the
  final cast keeps the low 16 bits.
\<close>

definition FIX_MPY :: "int16 \<Rightarrow> int16 \<Rightarrow> int16" where
  "FIX_MPY a b =
     (let c = (scast a :: int32) * (scast b :: int32);
          c = c + 0x4000;
          c = signed_drop_bit 15 c
      in (ucast c :: int16))"

subsection \<open>Division by two\<close>

text \<open>
  \<open>wr/2\<close>, \<open>fr[i]/2\<close>: the \<open>int16_t\<close> operand is promoted to \<open>int\<close>, C division
  truncates towards zero (\<open>sdiv\<close> on \<open>int\<close>), and the quotient is stored back into an
  \<open>int16_t\<close>.
\<close>

definition c_div2 :: "int16 \<Rightarrow> int16" where
  "c_div2 x = word_of_int (sint x sdiv 2)"

subsection \<open>Counting loops\<close>

text \<open>
  \<open>for (i = a; i < n; i += inc) body\<close> over a state \<open>s\<close>. The loop counters of
  fix\_fft are \<open>uint16_t\<close>; they are modelled as naturals. The increments of the source
  are \<open>1\<close> and \<open>step*2\<close> with \<open>1 \<le> step\<close>: the test \<open>0 < inc\<close> only makes the
  HOL function total, and no counter of a run reaches \<open>2 ^ 16\<close> (the bound is
  \<open>FFT_SIZE\<close>, the largest increment \<open>FFT_SIZE\<close>).
\<close>

function for_loop :: "nat \<Rightarrow> nat \<Rightarrow> nat \<Rightarrow> (nat \<Rightarrow> 's \<Rightarrow> 's) \<Rightarrow> 's \<Rightarrow> 's" where
  "for_loop i n inc body s =
     (if i < n \<and> 0 < inc then for_loop (i + inc) n inc body (body i s) else s)"
  by pat_completeness auto
termination
  by (relation "measure (\<lambda>(i, n, inc, body, s). n - i)") auto

subsection \<open>Decimation in time: re-ordering the samples\<close>

type_synonym buffers = "int16 list \<times> int16 list"

text \<open>\<open>t = f[i]; f[i] = f[r]; f[r] = t\<close>\<close>

definition swap_at :: "nat \<Rightarrow> nat \<Rightarrow> 'a list \<Rightarrow> 'a list" where
  "swap_at i r f = (f[i := f ! r])[r := f ! i]"

text \<open>
  The test \<open>*bp > i\<close> compares the \<open>int16_t\<close> table entry with the \<open>uint16_t\<close>
  counter, both promoted to \<open>int\<close>.
\<close>

definition swaps :: "nat \<Rightarrow> bool" where
  "swaps i = (int i < sint (bitrev ! i))"

definition bitrev_at :: "nat \<Rightarrow> nat" where
  "bitrev_at i = nat (sint (bitrev ! i))"

definition reorder_step :: "nat \<Rightarrow> buffers \<Rightarrow> buffers" where
  "reorder_step i = (\<lambda>(fr, fi).
     if swaps i then (swap_at i (bitrev_at i) fr, swap_at i (bitrev_at i) fi) else (fr, fi))"

definition reorder :: "buffers \<Rightarrow> buffers" where
  "reorder b = for_loop 0 FFT_SIZE 1 reorder_step b"

subsection \<open>The range test of a stage\<close>

definition out_of_range :: "int16 \<Rightarrow> int16 \<Rightarrow> bool" where
  "out_of_range r i =
     (sint r > 0x3fff \<or> sint r < - 0x4000 \<or> sint i > 0x3fff \<or> sint i < - 0x4000)"

text \<open>
  The scan loop, from index \<open>i\<close>: it returns \<open>shift\<close> and the scale counter. The
  counter is a \<open>uint16_t\<close>, so \<open>scale++\<close> is taken modulo \<open>2 ^ 16\<close>.
\<close>

function range_scan :: "nat \<Rightarrow> int16 list \<Rightarrow> int16 list \<Rightarrow> nat \<Rightarrow> bool \<times> nat" where
  "range_scan i fr fi scale =
     (if i < FFT_SIZE then
        (if out_of_range (fr ! i) (fi ! i) then (True, (scale + 1) mod 65536)
         else range_scan (i + 1) fr fi scale)
      else (False, scale))"
  by pat_completeness auto
termination
  by (relation "measure (\<lambda>(i, fr, fi, scale). FFT_SIZE - i)") auto

subsection \<open>Butterflies\<close>

text \<open>\<open>j = m << (k-1)\<close>, stored into a \<open>uint16_t\<close>.\<close>

definition twiddle_index :: "nat \<Rightarrow> nat \<Rightarrow> nat" where
  "twiddle_index m k = (m * 2 ^ (k - 1)) mod 65536"

definition twiddle :: "bool \<Rightarrow> bool \<Rightarrow> nat \<Rightarrow> nat \<Rightarrow> int16 \<times> int16" where
  "twiddle inverse' shift m k =
     (let j = twiddle_index m k;
          wr = Sine ! (j + FFT_SIZE div 4);
          wi = (if inverse' then Sine ! j else - (Sine ! j))
      in if shift then (c_div2 wr, c_div2 wi) else (wr, wi))"

definition butterfly :: "bool \<Rightarrow> int16 \<Rightarrow> int16 \<Rightarrow> nat \<Rightarrow> nat \<Rightarrow> buffers \<Rightarrow> buffers" where
  "butterfly shift wr wi step i = (\<lambda>(fr, fi).
     let j = i + step;
         tr = FIX_MPY wr (fr ! j) - FIX_MPY wi (fi ! j);
         ti = FIX_MPY wr (fi ! j) + FIX_MPY wi (fr ! j);
         qr = (if shift then c_div2 (fr ! i) else fr ! i);
         qi = (if shift then c_div2 (fi ! i) else fi ! i)
     in (fr[i := qr + tr, j := qr - tr], fi[i := qi + ti, j := qi - ti]))"

text \<open>The body of the loop over \<open>m\<close>: the twiddle factors and the loop over \<open>i\<close>.\<close>

definition group_pass :: "bool \<Rightarrow> bool \<Rightarrow> nat \<Rightarrow> nat \<Rightarrow> nat \<Rightarrow> buffers \<Rightarrow> buffers" where
  "group_pass inverse' shift k step m b =
     (case twiddle inverse' shift m k of
        (wr, wi) \<Rightarrow> for_loop m FFT_SIZE (step * 2) (butterfly shift wr wi step) b)"

subsection \<open>The stages and fix\_fft\<close>

text \<open>One pass of the loop over \<open>k\<close>: the state is the two buffers and \<open>scale\<close>.\<close>

definition stage :: "bool \<Rightarrow> nat \<Rightarrow> nat \<Rightarrow> buffers \<times> nat \<Rightarrow> buffers \<times> nat" where
  "stage inverse' k step = (\<lambda>((fr, fi), scale).
     case range_scan 0 fr fi scale of
       (shift, scale') \<Rightarrow> (for_loop 0 step 1 (group_pass inverse' shift k step) (fr, fi), scale'))"

text \<open>
  \<open>for (k = FFT_ORDER; k > 0; k--) { ...; step = step << 1; }\<close> with \<open>step\<close> a
  \<open>uint16_t\<close>.
\<close>

fun stages :: "bool \<Rightarrow> nat \<Rightarrow> nat \<Rightarrow> buffers \<times> nat \<Rightarrow> buffers \<times> nat" where
  "stages inverse' 0 step s = s"
| "stages inverse' (Suc k) step s =
     stages inverse' k (step * 2 mod 65536) (stage inverse' (Suc k) step s)"

definition fix_fft :: "int16 list \<Rightarrow> int16 list \<Rightarrow> bool \<Rightarrow> buffers \<times> nat" where
  "fix_fft fr fi inverse' = stages inverse' FFT_ORDER 1 (reorder (fr, fi), 0)"

text \<open>
  The states of a run of the stage loop: the state at the entry of each stage, in
  order, followed by the state at the exit of the loop.
\<close>

fun stage_states :: "bool \<Rightarrow> nat \<Rightarrow> nat \<Rightarrow> buffers \<times> nat \<Rightarrow> (buffers \<times> nat) list" where
  "stage_states inverse' 0 step s = [s]"
| "stage_states inverse' (Suc k) step s =
     s # stage_states inverse' k (step * 2 mod 65536) (stage inverse' (Suc k) step s)"

definition exceeds :: "buffers \<times> nat \<Rightarrow> bool" where
  "exceeds s = (\<exists>j<FFT_SIZE. out_of_range (fst (fst s) ! j) (snd (fst s) ! j))"

section \<open>Functions for evaluation\<close>

text \<open>
  The loops above address the buffers by index. The functions of this section compute
  the same results by structural recursion over the lists; they are proved equal to
  the loops below and serve to evaluate a transform on a concrete input.
\<close>

subsection \<open>The bit-reversal permutation\<close>

text \<open>
  \<open>brev n\<close> permutes a list of length \<open>2 ^ n\<close>: the elements at even positions,
  permuted, then those at odd positions, permuted.
\<close>

fun evens :: "'a list \<Rightarrow> 'a list" where
  "evens (x # y # zs) = x # evens zs"
| "evens [x] = [x]"
| "evens [] = []"

fun odds :: "'a list \<Rightarrow> 'a list" where
  "odds (x # y # zs) = y # odds zs"
| "odds [x] = []"
| "odds [] = []"

fun brev :: "nat \<Rightarrow> 'a list \<Rightarrow> 'a list" where
  "brev 0 xs = xs"
| "brev (Suc n) xs = brev n (evens xs) @ brev n (odds xs)"

text \<open>The number of stages, in unary, for structural recursion.\<close>

definition ten :: nat where
  "ten = Suc (Suc (Suc (Suc (Suc (Suc (Suc (Suc (Suc (Suc 0)))))))))"

fun iota :: "'b list \<Rightarrow> int \<Rightarrow> int list" where
  "iota [] n = []"
| "iota (x # xs) n = n # iota xs (n + 1)"

fun eqs :: "bool \<Rightarrow> int list \<Rightarrow> int list \<Rightarrow> bool" where
  "eqs False xs ys = False"
| "eqs True [] [] = True"
| "eqs True (x # xs) (y # ys) = eqs (x = y) xs ys"
| "eqs True _ _ = False"

text \<open>The bit-reversed position of \<open>p\<close>, from \<open>brev\<close>.\<close>

definition rho :: "nat \<Rightarrow> nat" where
  "rho p = brev ten [0..<FFT_SIZE] ! p"

subsection \<open>One stage on a list of samples\<close>

text \<open>
  A sample is a pair (real, imaginary). \<open>blocks\<close> walks through the list in blocks of
  \<open>2 * length ws\<close> samples and applies the butterfly \<open>f\<close> to the \<open>m\<close>-th sample of the
  first half of a block, the \<open>m\<close>-th sample of its second half and the \<open>m\<close>-th twiddle
  factor; \<open>fuel\<close> is any list at least as long as the number of blocks.
\<close>

fun drop_by :: "'b list \<Rightarrow> 'a list \<Rightarrow> 'a list" where
  "drop_by [] xs = xs"
| "drop_by (w # ws) [] = []"
| "drop_by (w # ws) (x # xs) = drop_by ws xs"

fun zip3 :: "('w \<Rightarrow> 'a \<Rightarrow> 'a \<Rightarrow> 'a \<times> 'a) \<Rightarrow> 'w list \<Rightarrow> 'a list \<Rightarrow> 'a list \<Rightarrow> ('a \<times> 'a) list" where
  "zip3 f (w # ws) (a # as) (b # bs) = f w a b # zip3 f ws as bs"
| "zip3 f _ _ _ = []"

fun fsts :: "('a \<times> 'a) list \<Rightarrow> 'a list \<Rightarrow> 'a list" where
  "fsts [] r = r"
| "fsts ((n, f) # ps) r = n # fsts ps r"

fun snds :: "('a \<times> 'a) list \<Rightarrow> 'a list \<Rightarrow> 'a list" where
  "snds [] r = r"
| "snds ((n, f) # ps) r = f # snds ps r"

definition emit :: "('a \<times> 'a) list \<Rightarrow> 'a list \<Rightarrow> 'a list" where
  "emit ps r = fsts ps (snds ps r)"

fun blocks :: "'f list \<Rightarrow> ('w \<Rightarrow> 'a \<Rightarrow> 'a \<Rightarrow> 'a \<times> 'a) \<Rightarrow> 'w list \<Rightarrow> 'a list \<Rightarrow> 'a list" where
  "blocks fuel f ws [] = []"
| "blocks [] f ws (x # xs) = []"
| "blocks (u # fuel) f ws (x # xs) =
     emit (zip3 f ws (x # xs) (drop_by ws (x # xs)))
       (blocks fuel f ws (drop_by ws (drop_by ws (x # xs))))"

definition blk_cell :: "('w \<Rightarrow> 'a \<Rightarrow> 'a \<Rightarrow> 'a \<times> 'a) \<Rightarrow> 'w list \<Rightarrow> nat \<Rightarrow> 'a list \<Rightarrow> nat \<Rightarrow> 'a" where
  "blk_cell f ws step xs p =
     (if p mod (2 * step) < step
      then fst (f (ws ! (p mod (2 * step))) (xs ! p) (xs ! (p + step)))
      else snd (f (ws ! (p mod (2 * step) - step)) (xs ! (p - step)) (xs ! p)))"

subsection \<open>The butterfly on integers\<close>

text \<open>
  Samples as integers: \<open>wrap16\<close> is the narrowing to 16 bits, \<open>mpy\<close> the product of
  \<open>FIX_MPY\<close> before narrowing, \<open>half\<close> the division by two of C. The butterfly takes
  the narrowing of its four sums as a parameter \<open>nar\<close>: with \<open>wrap16\<close> it is the
  butterfly of fix\_fft, with the identity \<open>idn\<close> it is the same butterfly in unbounded
  integer arithmetic. A butterfly whose second operand is zero copies its first one.
\<close>

type_synonym cpx = "int \<times> int"

definition wrap16 :: "int \<Rightarrow> int" where
  "wrap16 x = (if - 32768 \<le> x \<and> x \<le> 32767 then x else (x + 32768) mod 65536 - 32768)"

definition mpy :: "int \<Rightarrow> int \<Rightarrow> int" where
  "mpy a b = (if b = 0 then 0 else if a = 0 then 0 else (a * b + 16384) div 32768)"

definition half :: "int \<Rightarrow> int" where
  "half x = (if 0 \<le> x then x div 2 else - ((- x) div 2))"

fun hv :: "bool \<Rightarrow> int \<Rightarrow> int" where
  "hv True x = half x"
| "hv False x = x"

definition bf2 :: "(int \<Rightarrow> int) \<Rightarrow> int \<Rightarrow> int \<Rightarrow> int \<Rightarrow> int \<Rightarrow> cpx \<times> cpx" where
  "bf2 nar qr qi tr ti = ((nar (qr + tr), nar (qi + ti)), (nar (qr - tr), nar (qi - ti)))"

fun bf0 :: "bool \<Rightarrow> (int \<Rightarrow> int) \<Rightarrow> bool \<Rightarrow> int \<Rightarrow> int \<Rightarrow> int \<Rightarrow> int \<Rightarrow> int \<Rightarrow> int \<Rightarrow> cpx \<times> cpx" where
  "bf0 True nar sh wr wi ar ai br bi = ((hv sh ar, hv sh ai), (hv sh ar, hv sh ai))"
| "bf0 False nar sh wr wi ar ai br bi =
     bf2 nar (hv sh ar) (hv sh ai) (mpy wr br - mpy wi bi) (mpy wr bi + mpy wi br)"

fun bf :: "(int \<Rightarrow> int) \<Rightarrow> bool \<Rightarrow> cpx \<Rightarrow> cpx \<Rightarrow> cpx \<Rightarrow> cpx \<times> cpx" where
  "bf nar sh (wr, wi) (ar, ai) (br, bi) = bf0 (br = 0 \<and> bi = 0) nar sh wr wi ar ai br bi"

text \<open>The integers of a pair fit \<open>int16_t\<close>; the pair as words; a list of pairs as two buffers.\<close>

definition inr :: "cpx \<Rightarrow> bool" where
  "inr a = (- 32768 \<le> fst a \<and> fst a \<le> 32767 \<and> - 32768 \<le> snd a \<and> snd a \<le> 32767)"

definition W :: "cpx \<Rightarrow> int16 \<times> int16" where
  "W a = (word_of_int (fst a), word_of_int (snd a))"

definition unz :: "cpx list \<Rightarrow> buffers" where
  "unz xs = (map (word_of_int \<circ> fst) xs, map (word_of_int \<circ> snd) xs)"

fun idn :: "int \<Rightarrow> int" where
  "idn x = x"

definition oor :: "cpx \<Rightarrow> bool" where
  "oor a = (fst a > 0x3fff \<or> fst a < - 0x4000 \<or> snd a > 0x3fff \<or> snd a < - 0x4000)"

fun scan :: "bool \<Rightarrow> cpx list \<Rightarrow> bool" where
  "scan True xs = True"
| "scan False [] = False"
| "scan False (x # xs) = scan (oor x) xs"

fun tw_of :: "bool \<Rightarrow> bool \<Rightarrow> cpx \<Rightarrow> cpx" where
  "tw_of True sh (c, s) = (hv sh c, hv sh s)"
| "tw_of False sh (c, s) = (hv sh c, hv sh (- s))"

fun bump :: "bool \<Rightarrow> nat \<Rightarrow> nat" where
  "bump True n = Suc n"
| "bump False n = n"

definition stage_sh ::
  "(bool \<Rightarrow> cpx \<Rightarrow> cpx \<Rightarrow> cpx \<Rightarrow> cpx \<times> cpx) \<Rightarrow> bool \<Rightarrow> bool \<Rightarrow> cpx list \<Rightarrow> cpx list \<Rightarrow> nat
     \<Rightarrow> cpx list \<times> nat" where
  "stage_sh f iv sh t xs sc = (blocks xs (f sh) (map (tw_of iv sh) t) xs, bump sh sc)"

fun stage_ev ::
  "(bool \<Rightarrow> cpx \<Rightarrow> cpx \<Rightarrow> cpx \<Rightarrow> cpx \<times> cpx) \<Rightarrow> bool \<Rightarrow> cpx list \<Rightarrow> cpx list \<times> nat
     \<Rightarrow> cpx list \<times> nat" where
  "stage_ev f iv t (xs, sc) = stage_sh f iv (scan False xs) t xs sc"

fun stages_ev ::
  "(bool \<Rightarrow> cpx \<Rightarrow> cpx \<Rightarrow> cpx \<Rightarrow> cpx \<times> cpx) \<Rightarrow> bool \<Rightarrow> cpx list list \<Rightarrow> cpx list \<times> nat
     \<Rightarrow> cpx list \<times> nat" where
  "stages_ev f iv [] st = st"
| "stages_ev f iv (t # ts) st = stages_ev f iv ts (stage_ev f iv t st)"

text \<open>
  The twiddle factors as integers. \<open>SineI\<close> lists the entries of \<open>Sine\<close> as
  integers (it is proved below to be \<open>map sint Sine\<close>); \<open>base\<close> pairs the cosine \<open>Sine[j + N/4]\<close> with the
  sine \<open>Sine[j]\<close> for \<open>j < N/2\<close>; the stage with counter \<open>k\<close> reads every
  \<open>2 ^ (k - 1)\<close>-th pair.
\<close>

definition SineI :: "int list" where
  "SineI = [
    0, 201, 402, 603, 804, 1005, 1206, 1406,
    1607, 1808, 2009, 2209, 2410, 2610, 2811, 3011,
    3211, 3411, 3611, 3811, 4011, 4210, 4409, 4608,
    4807, 5006, 5205, 5403, 5601, 5799, 5997, 6195,
    6392, 6589, 6786, 6982, 7179, 7375, 7571, 7766,
    7961, 8156, 8351, 8545, 8739, 8932, 9126, 9319,
    9511, 9703, 9895, 10087, 10278, 10469, 10659, 10849,
    11038, 11227, 11416, 11604, 11792, 11980, 12166, 12353,
    12539, 12724, 12909, 13094, 13278, 13462, 13645, 13827,
    14009, 14191, 14372, 14552, 14732, 14911, 15090, 15268,
    15446, 15623, 15799, 15975, 16150, 16325, 16499, 16672,
    16845, 17017, 17189, 17360, 17530, 17699, 17868, 18036,
    18204, 18371, 18537, 18702, 18867, 19031, 19194, 19357,
    19519, 19680, 19840, 20000, 20159, 20317, 20474, 20631,
    20787, 20942, 21096, 21249, 21402, 21554, 21705, 21855,
    22004, 22153, 22301, 22448, 22594, 22739, 22883, 23027,
    23169, 23311, 23452, 23592, 23731, 23869, 24006, 24143,
    24278, 24413, 24546, 24679, 24811, 24942, 25072, 25201,
    25329, 25456, 25582, 25707, 25831, 25954, 26077, 26198,
    26318, 26437, 26556, 26673, 26789, 26905, 27019, 27132,
    27244, 27355, 27466, 27575, 27683, 27790, 27896, 28001,
    28105, 28208, 28309, 28410, 28510, 28608, 28706, 28802,
    28897, 28992, 29085, 29177, 29268, 29358, 29446, 29534,
    29621, 29706, 29790, 29873, 29955, 30036, 30116, 30195,
    30272, 30349, 30424, 30498, 30571, 30643, 30713, 30783,
    30851, 30918, 30984, 31049, 31113, 31175, 31236, 31297,
    31356, 31413, 31470, 31525, 31580, 31633, 31684, 31735,
    31785, 31833, 31880, 31926, 31970, 32014, 32056, 32097,
    32137, 32176, 32213, 32249, 32284, 32318, 32350, 32382,
    32412, 32441, 32468, 32495, 32520, 32544, 32567, 32588,
    32609, 32628, 32646, 32662, 32678, 32692, 32705, 32717,
    32727, 32736, 32744, 32751, 32757, 32761, 32764, 32766,
    32767, 32766, 32764, 32761, 32757, 32751, 32744, 32736,
    32727, 32717, 32705, 32692, 32678, 32662, 32646, 32628,
    32609, 32588, 32567, 32544, 32520, 32495, 32468, 32441,
    32412, 32382, 32350, 32318, 32284, 32249, 32213, 32176,
    32137, 32097, 32056, 32014, 31970, 31926, 31880, 31833,
    31785, 31735, 31684, 31633, 31580, 31525, 31470, 31413,
    31356, 31297, 31236, 31175, 31113, 31049, 30984, 30918,
    30851, 30783, 30713, 30643, 30571, 30498, 30424, 30349,
    30272, 30195, 30116, 30036, 29955, 29873, 29790, 29706,
    29621, 29534, 29446, 29358, 29268, 29177, 29085, 28992,
    28897, 28802, 28706, 28608, 28510, 28410, 28309, 28208,
    28105, 28001, 27896, 27790, 27683, 27575, 27466, 27355,
    27244, 27132, 27019, 26905, 26789, 26673, 26556, 26437,
    26318, 26198, 26077, 25954, 25831, 25707, 25582, 25456,
    25329, 25201, 25072, 24942, 24811, 24679, 24546, 24413,
    24278, 24143, 24006, 23869, 23731, 23592, 23452, 23311,
    23169, 23027, 22883, 22739, 22594, 22448, 22301, 22153,
    22004, 21855, 21705, 21554, 21402, 21249, 21096, 20942,
    20787, 20631, 20474, 20317, 20159, 20000, 19840, 19680,
    19519, 19357, 19194, 19031, 18867, 18702, 18537, 18371,
    18204, 18036, 17868, 17699, 17530, 17360, 17189, 17017,
    16845, 16672, 16499, 16325, 16150, 15975, 15799, 15623,
    15446, 15268, 15090, 14911, 14732, 14552, 14372, 14191,
    14009, 13827, 13645, 13462, 13278, 13094, 12909, 12724,
    12539, 12353, 12166, 11980, 11792, 11604, 11416, 11227,
    11038, 10849, 10659, 10469, 10278, 10087, 9895, 9703,
    9511, 9319, 9126, 8932, 8739, 8545, 8351, 8156,
    7961, 7766, 7571, 7375, 7179, 6982, 6786, 6589,
    6392, 6195, 5997, 5799, 5601, 5403, 5205, 5006,
    4807, 4608, 4409, 4210, 4011, 3811, 3611, 3411,
    3211, 3011, 2811, 2610, 2410, 2209, 2009, 1808,
    1607, 1406, 1206, 1005, 804, 603, 402, 201,
    0, -201, -402, -603, -804, -1005, -1206, -1406,
    -1607, -1808, -2009, -2209, -2410, -2610, -2811, -3011,
    -3211, -3411, -3611, -3811, -4011, -4210, -4409, -4608,
    -4807, -5006, -5205, -5403, -5601, -5799, -5997, -6195,
    -6392, -6589, -6786, -6982, -7179, -7375, -7571, -7766,
    -7961, -8156, -8351, -8545, -8739, -8932, -9126, -9319,
    -9511, -9703, -9895, -10087, -10278, -10469, -10659, -10849,
    -11038, -11227, -11416, -11604, -11792, -11980, -12166, -12353,
    -12539, -12724, -12909, -13094, -13278, -13462, -13645, -13827,
    -14009, -14191, -14372, -14552, -14732, -14911, -15090, -15268,
    -15446, -15623, -15799, -15975, -16150, -16325, -16499, -16672,
    -16845, -17017, -17189, -17360, -17530, -17699, -17868, -18036,
    -18204, -18371, -18537, -18702, -18867, -19031, -19194, -19357,
    -19519, -19680, -19840, -20000, -20159, -20317, -20474, -20631,
    -20787, -20942, -21096, -21249, -21402, -21554, -21705, -21855,
    -22004, -22153, -22301, -22448, -22594, -22739, -22883, -23027,
    -23169, -23311, -23452, -23592, -23731, -23869, -24006, -24143,
    -24278, -24413, -24546, -24679, -24811, -24942, -25072, -25201,
    -25329, -25456, -25582, -25707, -25831, -25954, -26077, -26198,
    -26318, -26437, -26556, -26673, -26789, -26905, -27019, -27132,
    -27244, -27355, -27466, -27575, -27683, -27790, -27896, -28001,
    -28105, -28208, -28309, -28410, -28510, -28608, -28706, -28802,
    -28897, -28992, -29085, -29177, -29268, -29358, -29446, -29534,
    -29621, -29706, -29790, -29873, -29955, -30036, -30116, -30195,
    -30272, -30349, -30424, -30498, -30571, -30643, -30713, -30783,
    -30851, -30918, -30984, -31049, -31113, -31175, -31236, -31297,
    -31356, -31413, -31470, -31525, -31580, -31633, -31684, -31735,
    -31785, -31833, -31880, -31926, -31970, -32014, -32056, -32097,
    -32137, -32176, -32213, -32249, -32284, -32318, -32350, -32382,
    -32412, -32441, -32468, -32495, -32520, -32544, -32567, -32588,
    -32609, -32628, -32646, -32662, -32678, -32692, -32705, -32717,
    -32727, -32736, -32744, -32751, -32757, -32761, -32764, -32766]"

definition base :: "cpx list" where
  "base = zip (drop_by (replicate 256 ()) SineI) SineI"

fun tables :: "nat \<Rightarrow> cpx list \<Rightarrow> cpx list list \<Rightarrow> cpx list list" where
  "tables 0 b acc = acc"
| "tables (Suc n) b acc = tables n (evens b) (b # acc)"

definition fft_ev ::
  "(bool \<Rightarrow> cpx \<Rightarrow> cpx \<Rightarrow> cpx \<Rightarrow> cpx \<times> cpx) \<Rightarrow> bool \<Rightarrow> cpx list \<Rightarrow> cpx list \<times> nat" where
  "fft_ev f iv xs = stages_ev f iv (tables ten base []) (brev ten xs, 0)"

text \<open>Every element of a list is at least \<open>c\<close>.\<close>

fun all_ge :: "bool \<Rightarrow> int \<Rightarrow> int list \<Rightarrow> bool" where
  "all_ge False c xs = False"
| "all_ge True c [] = True"
| "all_ge True c (x # xs) = all_ge (c \<le> x) c xs"

subsection \<open>Particular signals\<close>

text \<open>
  The transform in unbounded integer arithmetic, with the same stages, range scans and
  halvings as fix\_fft but no narrowing of the sums to 16 bits; four input signals, as
  lists of integer samples; and the comparisons made on the results of their
  transforms, by structural recursion.
\<close>

definition wide_fft :: "bool \<Rightarrow> cpx list \<Rightarrow> cpx list \<times> nat" where
  "wide_fft iv xs = fft_ev (bf idn) iv xs"

definition zero_input :: "cpx list" where
  "zero_input = replicate FFT_SIZE (0, 0)"

definition impulse_input :: "cpx list" where
  "impulse_input = (replicate FFT_SIZE (0, 0))[0 := (32767, 0)]"

definition mirrored_input :: "cpx list" where
  "mirrored_input = (replicate FFT_SIZE (0, 0))[1 := (32767, 0), 1023 := (32767, 0)]"

definition overflow_input :: "cpx list" where
  "overflow_input = (replicate FFT_SIZE (0, 0))[0 := (32767, 0), 128 := (32767, 32767)]"

fun all_cells :: "bool \<Rightarrow> cpx \<Rightarrow> cpx list \<Rightarrow> bool" where
  "all_cells False c xs = False"
| "all_cells True c [] = True"
| "all_cells True c (x # xs) = all_cells (x = c) c xs"

fun const_result :: "cpx \<Rightarrow> nat \<Rightarrow> cpx list \<times> nat \<Rightarrow> bool" where
  "const_result c n (ys, sc) = all_cells (sc = n) c ys"

fun same_cells :: "bool \<Rightarrow> cpx list \<Rightarrow> cpx list \<Rightarrow> bool" where
  "same_cells False xs ys = False"
| "same_cells True [] [] = True"
| "same_cells True (x # xs) (y # ys) = same_cells (x = y) xs ys"
| "same_cells True _ _ = False"

text \<open>\<open>32767 * cos (2 * pi * n / 1024)\<close> for \<open>n < 1024\<close>, from the table.\<close>

definition cos_ref :: "int list" where
  "cos_ref = drop_by (replicate 256 ()) SineI @ map uminus (drop_by (replicate 256 ()) SineI)"

fun close_to :: "bool \<Rightarrow> int \<Rightarrow> int \<Rightarrow> int \<Rightarrow> cpx list \<Rightarrow> int list \<Rightarrow> bool" where
  "close_to False f tr ti ys rs = False"
| "close_to True f tr ti [] [] = True"
| "close_to True f tr ti ((yr, yi) # ys) (r # rs) =
     close_to (\<bar>yr * f - 2 * r\<bar> \<le> tr \<and> \<bar>yi * f\<bar> \<le> ti) f tr ti ys rs"
| "close_to True f tr ti _ _ = False"

fun mirrored_check :: "cpx list \<times> nat \<Rightarrow> cpx list \<times> nat \<Rightarrow> bool" where
  "mirrored_check (ys, sc) (ws, sw) =
     (sc = 2 \<and> sw = 2 \<and> same_cells True ys ws \<and> close_to True 4 20 12 ys cos_ref)"

fun round_trip :: "cpx list \<times> nat \<Rightarrow> (cpx list \<times> nat) \<times> (cpx list \<times> nat)" where
  "round_trip (ys, s1) = ((take 2 ys, s1), fft_ev (bf wrap16) True ys)"

fun round_trip_check :: "(cpx list \<times> nat) \<times> (cpx list \<times> nat) \<Rightarrow> bool" where
  "round_trip_check ((ys, s1), (zs, s2)) =
     (s1 = 2 \<and> s2 = 8 \<and> ys = [(16383, 8191), (- 12992, 0)] \<and> take 1 zs = [(16381, 0)])"

fun wide_check :: "cpx list \<times> nat \<Rightarrow> bool" where
  "wide_check (ws, sw) = (sw = 3 \<and> take 2 ws = [(8191, 4095), (9887, 0)])"

section \<open>Notions for the proofs\<close>

text \<open>The sample at position \<open>p\<close> of two buffers, their common length, and the two results of a butterfly.\<close>

definition cell :: "buffers \<Rightarrow> nat \<Rightarrow> int16 \<times> int16" where
  "cell b p = (fst b ! p, snd b ! p)"

definition len :: "buffers \<Rightarrow> nat \<Rightarrow> bool" where
  "len b n = (length (fst b) = n \<and> length (snd b) = n)"

definition bf_near :: "bool \<Rightarrow> int16 \<times> int16 \<Rightarrow> int16 \<times> int16 \<Rightarrow> int16 \<times> int16 \<Rightarrow> int16 \<times> int16" where
  "bf_near shift w a b =
     (let tr = FIX_MPY (fst w) (fst b) - FIX_MPY (snd w) (snd b);
          ti = FIX_MPY (fst w) (snd b) + FIX_MPY (snd w) (fst b);
          qr = (if shift then c_div2 (fst a) else fst a);
          qi = (if shift then c_div2 (snd a) else snd a)
      in (qr + tr, qi + ti))"

definition bf_far :: "bool \<Rightarrow> int16 \<times> int16 \<Rightarrow> int16 \<times> int16 \<Rightarrow> int16 \<times> int16 \<Rightarrow> int16 \<times> int16" where
  "bf_far shift w a b =
     (let tr = FIX_MPY (fst w) (fst b) - FIX_MPY (snd w) (snd b);
          ti = FIX_MPY (fst w) (snd b) + FIX_MPY (snd w) (fst b);
          qr = (if shift then c_div2 (fst a) else fst a);
          qi = (if shift then c_div2 (snd a) else snd a)
      in (qr - tr, qi - ti))"

text \<open>The value of cell \<open>p\<close> after a stage whose input is \<open>b\<close>.\<close>

definition stage_cell :: "bool \<Rightarrow> (nat \<Rightarrow> int16 \<times> int16) \<Rightarrow> nat \<Rightarrow> buffers \<Rightarrow> nat \<Rightarrow> int16 \<times> int16" where
  "stage_cell shift tw step b p =
     (if p mod (2 * step) < step
      then bf_near shift (tw (p mod (2 * step))) (cell b p) (cell b (p + step))
      else bf_far shift (tw (p mod (2 * step) - step)) (cell b (p - step)) (cell b p))"

section \<open>The multiply primitive\<close>

lemma sint16_range: "- 32768 \<le> sint (a :: int16) \<and> sint a \<le> 32767"
  using sint_ge [of a] sint_lt [of a] by simp

lemma prod_bounds:
  fixes x y :: int
  assumes "- 32768 \<le> x" "x \<le> 32767" "- 32768 \<le> y" "y \<le> 32767"
  shows "- 1073709056 \<le> x * y \<and> x * y \<le> 1073741824"
proof -
  have "\<bar>x\<bar> \<le> 32768" "\<bar>y\<bar> \<le> 32768" using assms by auto
  then have "\<bar>x\<bar> * \<bar>y\<bar> \<le> 32768 * 32768" by (intro mult_mono) auto
  then have up: "\<bar>x * y\<bar> \<le> 1073741824" by (simp add: abs_mult)
  have lo: "- 1073709056 \<le> x * y"
  proof (cases "0 \<le> x")
    case True
    then have "x * (- 32768) \<le> x * y" using assms by (intro mult_left_mono) auto
    moreover have "x * 32768 \<le> 32767 * 32768" using assms by simp
    ultimately show ?thesis by simp
  next
    case False
    then have "x \<le> 0" by simp
    then have "x * y \<ge> x * 32767" using assms by (intro mult_left_mono_neg) auto
    moreover have "x * 32767 \<ge> - 32768 * 32767" using assms by simp
    ultimately show ?thesis by simp
  qed
  from up lo show ?thesis by auto
qed

lemma sint_wide_sum:
  "sint ((scast (a :: int16) :: int32) * scast (b :: int16) + 0x4000) = sint a * sint b + 16384"
proof -
  have r: "- 1073709056 \<le> sint a * sint b \<and> sint a * sint b \<le> 1073741824"
    using prod_bounds sint16_range by blast
  have "(scast a :: int32) * scast b + 0x4000 = word_of_int (sint a * sint b + 16384)"
    by simp
  then have "sint ((scast a :: int32) * scast b + 0x4000)
      = signed_take_bit 31 (sint a * sint b + 16384)"
    by (simp only: sint_sbintrunc') simp
  also have "signed_take_bit 31 (sint a * sint b + 16384) = sint a * sint b + 16384"
    using r by (simp add: signed_take_bit_int_eq_self_iff)
  finally show ?thesis .
qed

lemma FIX_MPY_of_int:
  "FIX_MPY a b = word_of_int ((sint a * sint b + 16384) div 32768)"
proof -
  have "FIX_MPY a b = ucast (signed_drop_bit 15 ((scast a :: int32) * scast b + 0x4000))"
    by (simp add: FIX_MPY_def Let_def)
  also have "\<dots> = word_of_int (sint (signed_drop_bit 15 ((scast a :: int32) * scast b + 0x4000)))"
    by (rule bit_word_eqI) (auto simp add: bit_simps)
  also have "sint (signed_drop_bit 15 ((scast a :: int32) * scast b + 0x4000))
     = (sint a * sint b + 16384) div 32768"
    by (simp only: sint_signed_drop_bit_eq sint_wide_sum drop_bit_eq_div) simp
  finally show ?thesis .
qed

lemma quot_bounds:
  fixes x y :: int
  assumes "- 32768 \<le> x" "x \<le> 32767" "- 32768 \<le> y" "y \<le> 32767"
    and "\<not> (x = - 32768 \<and> y = - 32768)"
  shows "- 32768 \<le> (x * y + 16384) div 32768 \<and> (x * y + 16384) div 32768 \<le> 32767"
proof -
  have lo: "- 1073709056 \<le> x * y" using prod_bounds [OF assms(1-4)] by simp
  have up: "x * y \<le> 1073709056"
  proof (cases "x = - 32768")
    case True
    then have "- 32767 \<le> y" using assms by auto
    then have "- 32768 * y \<le> - 32768 * (- 32767)" by simp
    with True show ?thesis by simp
  next
    case False
    then have x: "- 32767 \<le> x" using assms by auto
    show ?thesis
    proof (cases "0 \<le> y")
      case True
      then have "x * y \<le> 32767 * y" using assms by (intro mult_right_mono) auto
      also have "\<dots> \<le> 32767 * 32767" using assms by simp
      finally show ?thesis by simp
    next
      case False
      then have "y \<le> 0" by simp
      then have "x * y \<le> (- 32767) * y" using x by (intro mult_right_mono_neg) auto
      also have "\<dots> \<le> (- 32767) * (- 32768)" using assms by simp
      finally show ?thesis by simp
    qed
  qed
  from lo up show ?thesis by auto
qed


text \<open>
  Claim C2. For all \<open>int16_t\<close> operands, \<open>FIX_MPY\<close> (widen to 32 bits, multiply, add
  \<open>0x4000\<close>, shift right arithmetically by 15, keep the low 16 bits) returns the
  16-bit narrowing of \<open>floor ((a * b + 16384) / 32768)\<close>: read in two's complement its
  value is \<open>signed_take_bit 15\<close> of that quotient, and the word itself is the quotient
  modulo \<open>2 ^ 16\<close>. The model is a function of its two arguments only.
\<close>

theorem FIX_MPY_value:
  "sint (FIX_MPY a b) = signed_take_bit 15 ((sint a * sint b + 16384) div 32768)
   \<and> FIX_MPY a b = word_of_int ((sint a * sint b + 16384) div 32768)"
  using FIX_MPY_of_int [of a b] by (simp add: sint_sbintrunc')

text \<open>
  Claim C10. The only operand pair whose quotient leaves the \<open>int16_t\<close> range is
  \<open>a = b = -32768\<close>: there the quotient is \<open>32768\<close> and the result wraps to
  \<open>-32768\<close>. For every other pair the quotient lies in \<open>[-32768, 32767]\<close> and is
  returned exactly.
\<close>

theorem FIX_MPY_edge:
  "FIX_MPY (- 32768) (- 32768) = - 32768
   \<and> sint (FIX_MPY (- 32768) (- 32768)) = - 32768
   \<and> (sint (- 32768 :: int16) * sint (- 32768 :: int16) + 16384) div 32768 = 32768
   \<and> (\<not> (a = - 32768 \<and> b = - 32768) \<longrightarrow>
         - 32768 \<le> (sint a * sint b + 16384) div 32768
       \<and> (sint a * sint b + 16384) div 32768 \<le> 32767
       \<and> sint (FIX_MPY a b) = (sint a * sint b + 16384) div 32768)"
proof (intro conjI impI)
  show "FIX_MPY (- 32768) (- 32768) = - 32768" by (simp add: FIX_MPY_def)
  then show "sint (FIX_MPY (- 32768) (- 32768)) = - 32768" by simp
  show "(sint (- 32768 :: int16) * sint (- 32768 :: int16) + 16384) div 32768 = 32768" by simp
next
  assume h: "\<not> (a = - 32768 \<and> b = - 32768)"
  have m: "sint (- 32768 :: int16) = - 32768" by simp
  have "x = - 32768" if "sint x = - 32768" for x :: int16
    using that m by (intro signed_word_eqI [where ?'a = int]) simp
  then have "\<not> (sint a = - 32768 \<and> sint b = - 32768)"
    using h by blast
  then have q: "- 32768 \<le> (sint a * sint b + 16384) div 32768
       \<and> (sint a * sint b + 16384) div 32768 \<le> 32767"
    using quot_bounds [of "sint a" "sint b"] sint16_range [of a] sint16_range [of b] by blast
  then show "- 32768 \<le> (sint a * sint b + 16384) div 32768"
    and "(sint a * sint b + 16384) div 32768 \<le> 32767" by simp_all
  show "sint (FIX_MPY a b) = (sint a * sint b + 16384) div 32768"
    using q by (simp add: FIX_MPY_of_int sint_sbintrunc' signed_take_bit_int_eq_self_iff)
qed

theorem FIX_MPY_edge_witness:
  "\<not> ((32767 :: int16) = - 32768 \<and> (- 32768 :: int16) = - 32768)
   \<and> sint (FIX_MPY 32767 (- 32768)) = - 32767
   \<and> (sint (32767 :: int16) * sint (- 32768 :: int16) + 16384) div 32768 = - 32767"
  using FIX_MPY_edge [of 32767 "- 32768"] by simp

section \<open>The twiddle table\<close>

lemma length_Sine: "length Sine = 768"
  by (simp add: Sine_def)

text \<open>
  Claim C7, as stated: the table would have \<open>N * 3 / 4 + 1 = 769\<close> entries. The source
  declares \<open>Sine[3*FFT_SIZE/4]\<close> and initialises 768 values.
\<close>

theorem Sine_not_769: "length Sine \<noteq> FFT_SIZE * 3 div 4 + 1"
  by (simp add: length_Sine FFT_SIZE_def)

text \<open>
  Claim C7, amended: the table has exactly \<open>3 * N / 4 = 768\<close> entries, and the largest
  cosine index of the engine, \<open>(N / 2 - 1) + N / 4 = 767\<close>, is inside the table, so the
  cosine lookup needs no wraparound.
\<close>

theorem Sine_entries:
  "length Sine = 3 * FFT_SIZE div 4 \<and> length Sine = 768
   \<and> (FFT_SIZE div 2 - 1) + FFT_SIZE div 4 < length Sine"
  by (simp add: length_Sine FFT_SIZE_def)

lemma twiddle_index_less:
  fixes m k :: nat
  assumes "1 \<le> k" "k \<le> FFT_ORDER" "m < 2 ^ (FFT_ORDER - k)"
  shows "m * 2 ^ (k - 1) < 512"
proof -
  have "m * 2 ^ (k - 1) < 2 ^ (FFT_ORDER - k) * (2 ^ (k - 1) :: nat)"
    using assms(3) by simp
  also have "\<dots> = 2 ^ ((FFT_ORDER - k) + (k - 1))" by (simp add: power_add)
  also have "(FFT_ORDER - k) + (k - 1) = 9" using assms by (simp add: FFT_ORDER_def)
  finally show ?thesis by simp
qed

text \<open>
  Claim C8. At stage \<open>k\<close> (from \<open>FFT_ORDER = 10\<close> down to 1) the group loop runs over
  \<open>m < step = 2 ^ (10 - k)\<close>. The twiddle index \<open>j = m << (k-1)\<close> is not truncated by
  its \<open>uint16_t\<close> variable, lies below \<open>N / 2 = 512\<close>, and both \<open>Sine[j + N/4]\<close> and
  \<open>Sine[j]\<close> are read inside the table. The index does not depend on the direction.
\<close>

theorem twiddle_reads_in_bounds:
  fixes m k :: nat
  assumes "1 \<le> k" "k \<le> FFT_ORDER" "m < 2 ^ (FFT_ORDER - k)"
  shows "twiddle_index m k = m * 2 ^ (k - 1)
       \<and> twiddle_index m k < FFT_SIZE div 2
       \<and> twiddle_index m k + FFT_SIZE div 4 < length Sine
       \<and> twiddle_index m k < length Sine"
  using twiddle_index_less [OF assms]
  by (simp add: twiddle_index_def length_Sine FFT_SIZE_def)

theorem twiddle_reads_in_bounds_witness:
  "(1::nat) \<le> 1 \<and> 1 \<le> FFT_ORDER \<and> (511::nat) < 2 ^ (FFT_ORDER - 1)
   \<and> twiddle_index 511 1 = 511 \<and> twiddle_index 511 1 + FFT_SIZE div 4 < length Sine"
  using twiddle_reads_in_bounds [of 1 511] by (simp add: FFT_ORDER_def)

section \<open>Loops\<close>

declare for_loop.simps [simp del] range_scan.simps [simp del]

lemma for_loop_inv:
  assumes "P s" and "\<And>i s. P s \<Longrightarrow> i < n \<Longrightarrow> P (body i s)"
  shows "P (for_loop i n inc body s)"
  using assms
proof (induction i n inc body s rule: for_loop.induct)
  case (1 i n inc body s)
  show ?case
  proof (cases "i < n \<and> 0 < inc")
    case True
    then have "P (body i s)" using 1(2,3) by simp
    then have "P (for_loop (i + inc) n inc body (body i s))"
      using 1(1) [OF True] 1(3) by blast
    then show ?thesis using True by (subst for_loop.simps) simp
  next
    case False
    then show ?thesis using 1(2) by (subst for_loop.simps) auto
  qed
qed

lemma for_loop_upt: "for_loop i n 1 body s = fold body [i..<n] s"
proof (induction "n - i" arbitrary: i s)
  case 0
  then show ?case by (subst for_loop.simps) simp
next
  case (Suc d)
  then have lt: "i < n" by simp
  have "for_loop i n 1 body s = for_loop (i + 1) n 1 body (body i s)"
    using lt by (subst for_loop.simps) simp
  also have "\<dots> = fold body [i + 1..<n] (body i s)"
    using Suc(1) [of "i + 1" "body i s"] Suc(2) by simp
  finally show ?case using lt by (simp add: upt_rec [of i n])
qed

lemma for_loop_stride:
  assumes "0 < inc" "m < inc" "a \<le> c"
  shows "for_loop (m + a * inc) (c * inc) inc body s
       = fold body (map (\<lambda>t. m + t * inc) [a..<c]) s"
  using assms(3)
proof (induction "c - a" arbitrary: a s)
  case 0
  then have "a = c" by simp
  then show ?case using assms by (subst for_loop.simps) simp
next
  case (Suc d)
  then have lt: "a < c" by simp
  then have "Suc a \<le> c" by simp
  then have "Suc a * inc \<le> c * inc" by (rule mult_le_mono1)
  then have lt': "m + a * inc < c * inc" using assms(2) by simp
  have e: "m + a * inc + inc = m + Suc a * inc" by simp
  have "for_loop (m + a * inc) (c * inc) inc body s
      = for_loop (m + Suc a * inc) (c * inc) inc body (body (m + a * inc) s)"
    using lt' assms(1) by (subst for_loop.simps) (simp only: e if_True simp_thms)
  also have "\<dots> = fold body (map (\<lambda>t. m + t * inc) [Suc a..<c]) (body (m + a * inc) s)"
    using Suc(1) [of "Suc a"] Suc(2) lt by simp
  finally show ?case using lt by (simp add: upt_rec [of a c])
qed

lemma range_scan_eq:
  "range_scan i fr fi scale =
     (if \<exists>j. i \<le> j \<and> j < FFT_SIZE \<and> out_of_range (fr ! j) (fi ! j)
      then (True, (scale + 1) mod 65536) else (False, scale))"
proof (induction i fr fi scale rule: range_scan.induct)
  case (1 i fr fi scale)
  show ?case
  proof (cases "i < FFT_SIZE")
    case False
    then show ?thesis by (subst range_scan.simps) auto
  next
    case True
    show ?thesis
    proof (cases "out_of_range (fr ! i) (fi ! i)")
      case True
      with \<open>i < FFT_SIZE\<close> show ?thesis by (subst range_scan.simps) auto
    next
      case False
      have "(\<exists>j. i \<le> j \<and> j < FFT_SIZE \<and> out_of_range (fr ! j) (fi ! j))
          = (\<exists>j. i + 1 \<le> j \<and> j < FFT_SIZE \<and> out_of_range (fr ! j) (fi ! j))"
        using False by (metis Suc_eq_plus1 Suc_leI le_neq_implies_less Suc_leD)
      then show ?thesis
        using 1 [OF True False] True False by (subst range_scan.simps) simp
    qed
  qed
qed

lemma range_scan_0:
  "range_scan 0 fr fi scale =
     (if \<exists>j<FFT_SIZE. out_of_range (fr ! j) (fi ! j)
      then (True, (scale + 1) mod 65536) else (False, scale))"
  by (auto simp: range_scan_eq)

section \<open>The range scan of every stage\<close>

lemma range_scan_pair:
  "range_scan 0 fr fi scale =
     ((\<exists>j<FFT_SIZE. out_of_range (fr ! j) (fi ! j)),
      if \<exists>j<FFT_SIZE. out_of_range (fr ! j) (fi ! j) then (scale + 1) mod 65536 else scale)"
proof -
  define E where "E = (\<exists>j<FFT_SIZE. out_of_range (fr ! j) (fi ! j))"
  have "range_scan 0 fr fi scale = (if E then (True, (scale + 1) mod 65536) else (False, scale))"
    unfolding E_def by (rule range_scan_0)
  then have "range_scan 0 fr fi scale = (E, if E then (scale + 1) mod 65536 else scale)"
    by (cases E) simp_all
  then show ?thesis unfolding E_def .
qed

lemma stage_eq:
  "stage inverse' k step ((fr, fi), scale) =
     (for_loop 0 step 1
        (group_pass inverse' (\<exists>j<FFT_SIZE. out_of_range (fr ! j) (fi ! j)) k step) (fr, fi),
      if \<exists>j<FFT_SIZE. out_of_range (fr ! j) (fi ! j) then (scale + 1) mod 65536 else scale)"
  by (simp only: stage_def range_scan_pair prod.case)

lemma snd_stage: "snd (stage inverse' k step s) = (if exceeds s then (snd s + 1) mod 65536 else snd s)"
  by (cases s, cases "fst s") (auto simp: stage_eq exceeds_def)

lemma stage_states_nonempty [simp]: "stage_states inverse' k step s \<noteq> []"
  by (cases k) auto

lemma length_stage_states: "length (stage_states inverse' k step s) = Suc k"
  by (induction k arbitrary: step s) auto

lemma hd_stage_states [simp]: "hd (stage_states inverse' k step s) = s"
  by (cases k) auto

lemma last_stage_states: "last (stage_states inverse' k step s) = stages inverse' k step s"
  by (induction k arbitrary: step s) auto

lemma scales_stage_states:
  "map snd (tl (stage_states inverse' k step s)) =
     map (\<lambda>s. if exceeds s then (snd s + 1) mod 65536 else snd s)
       (butlast (stage_states inverse' k step s))"
proof (induction k arbitrary: step s)
  case 0
  then show ?case by simp
next
  case (Suc k)
  let ?s' = "stage inverse' (Suc k) step s"
  let ?S' = "stage_states inverse' k (step * 2 mod 65536) ?s'"
  have e: "?S' = ?s' # tl ?S'" using hd_Cons_tl [of ?S'] by simp
  have "map snd ?S' = snd ?s' # map snd (tl ?S')" by (subst e) simp
  then show ?case using Suc [of "step * 2 mod 65536" ?s'] by (simp add: snd_stage)
qed

lemma scale_bound_stage_states:
  "s' \<in> set (stage_states inverse' k step s) \<Longrightarrow> snd s' \<le> snd s + k"
proof (induction k arbitrary: step s)
  case 0
  then show ?case by simp
next
  case (Suc k)
  have m: "(snd s + 1) mod 65536 \<le> snd s + 1" by (rule mod_less_eq_dividend)
  have b: "snd (stage inverse' (Suc k) step s) \<le> snd s + 1"
    using m by (simp add: snd_stage)
  from Suc.prems consider "s' = s"
    | "s' \<in> set (stage_states inverse' k (step * 2 mod 65536) (stage inverse' (Suc k) step s))"
    by auto
  then show ?case
  proof cases
    case 1
    then show ?thesis by simp
  next
    case 2
    from Suc.IH [OF 2] b show ?thesis by simp
  qed
qed

text \<open>
  Claim C3. A run of fix\_fft passes through \<open>FFT_ORDER = 10\<close> stages, whatever the
  direction. Every stage runs the range scan: its \<open>shift\<close> flag, which the butterflies
  of the stage receive, is true exactly when some sample of \<open>fr\<close> or \<open>fi\<close> lies
  outside \<open>[-0x4000, 0x3fff]\<close> at the entry of the stage; then \<open>scale\<close> is
  incremented by one (modulo \<open>2 ^ 16\<close>, which a run never reaches), and otherwise it
  is unchanged. In the list \<open>S\<close> of the states of a run (the entries of the ten stages,
  then the returned state), each scale is the previous one, plus one when the previous
  state had a sample out of range.
\<close>

theorem range_scan_every_stage:
  "(let S = stage_states inverse' FFT_ORDER 1 (reorder (fr, fi), 0) in
      length S = FFT_ORDER + 1 \<and> FFT_ORDER = 10 \<and> last S = fix_fft fr fi inverse'
      \<and> map snd (tl S) =
          map (\<lambda>((r, i), scale).
                 if \<exists>j<FFT_SIZE. out_of_range (r ! j) (i ! j) then scale + 1 else scale)
              (butlast S))
   \<and> stage inverse' k step ((r, i), scale) =
       (for_loop 0 step 1
          (group_pass inverse' (\<exists>j<FFT_SIZE. out_of_range (r ! j) (i ! j)) k step) (r, i),
        if \<exists>j<FFT_SIZE. out_of_range (r ! j) (i ! j) then (scale + 1) mod 65536 else scale)"
proof -
  define S where "S = stage_states inverse' FFT_ORDER 1 (reorder (fr, fi), 0)"
  let ?g = "\<lambda>((r, i), scale).
       if \<exists>j<FFT_SIZE. out_of_range (r ! j) (i ! j) then scale + 1 else (scale::nat)"
  have b: "snd s \<le> 10" if "s \<in> set S" for s
    using scale_bound_stage_states [of s inverse' FFT_ORDER 1 "(reorder (fr, fi), 0)"] that
    unfolding S_def by (simp add: FFT_ORDER_def)
  have "map snd (tl S) = map (\<lambda>s. if exceeds s then (snd s + 1) mod 65536 else snd s) (butlast S)"
    unfolding S_def by (rule scales_stage_states)
  also have "\<dots> = map ?g (butlast S)"
  proof (rule map_cong [OF refl])
    fix s assume "s \<in> set (butlast S)"
    then have "s \<in> set S" by (rule in_set_butlastD)
    then have "snd s \<le> 10" by (rule b)
    then show "(if exceeds s then (snd s + 1) mod 65536 else snd s) = ?g s"
      by (cases s, cases "fst s") (auto simp: exceeds_def)
  qed
  finally have sc: "map snd (tl S) = map ?g (butlast S)" .
  have "length S = FFT_ORDER + 1" unfolding S_def by (simp add: length_stage_states)
  moreover have "last S = fix_fft fr fi inverse'"
    unfolding S_def by (simp add: last_stage_states fix_fft_def)
  ultimately show ?thesis
    using sc unfolding S_def [symmetric] Let_def by (simp add: stage_eq FFT_ORDER_def)
qed

section \<open>The bit-reversal pass\<close>

lemma eqs_eq': "eqs b xs ys \<Longrightarrow> b \<and> xs = ys"
  by (induction b xs ys rule: eqs.induct) auto

lemma eqs_eq: "eqs True xs ys \<Longrightarrow> xs = ys"
  using eqs_eq' by blast

lemma iota_eq: "iota xs n = map (\<lambda>i. n + int i) [0..<length xs]"
proof (induction xs arbitrary: n)
  case Nil
  then show ?case by simp
next
  case (Cons x xs)
  have u: "[0..<Suc (length xs)] = 0 # map Suc [0..<length xs]"
    by (simp only: map_Suc_upt upt_conv_Cons [OF zero_less_Suc])
  have "iota (x # xs) n = n # map (\<lambda>i. n + 1 + int i) [0..<length xs]"
    using Cons [of "n + 1"] by simp
  also have "\<dots> = map (\<lambda>i. n + int i) (0 # map Suc [0..<length xs])"
    by (simp add: o_def add.assoc del: upt_Suc)
  finally show ?case using u by simp
qed

lemma evens_map: "evens (map f xs) = map f (evens xs)"
  by (induction xs rule: evens.induct) auto

lemma odds_map: "odds (map f xs) = map f (odds xs)"
  by (induction xs rule: odds.induct) auto

lemma brev_map: "brev n (map f xs) = map f (brev n xs)"
  by (induction n arbitrary: xs) (auto simp: evens_map odds_map)

lemma length_evens_odds: "length (evens xs) + length (odds xs) = length xs"
  by (induction xs rule: evens.induct) auto

lemma set_evens_odds: "set (evens xs) \<union> set (odds xs) = set xs"
  by (induction xs rule: evens.induct) auto

lemma length_brev [simp]: "length (brev n xs) = length xs"
  by (induction n arbitrary: xs) (auto simp: length_evens_odds)

lemma set_brev [simp]: "set (brev n xs) = set xs"
proof (induction n arbitrary: xs)
  case 0
  then show ?case by simp
next
  case (Suc n)
  have "set (brev (Suc n) xs) = set (evens xs) \<union> set (odds xs)"
    using Suc by simp
  then show ?case by (simp only: set_evens_odds)
qed

lemma bitrev_brev: "map sint bitrev = brev ten (iota bitrev 0)"
  by (rule eqs_eq) code_simp

lemma brev_brev_iota: "brev ten (brev ten (iota bitrev 0)) = iota bitrev 0"
  by (rule eqs_eq) code_simp

lemma length_bitrev: "length bitrev = FFT_SIZE"
  by (simp add: bitrev_def FFT_SIZE_def)

lemma iota_bitrev: "iota bitrev 0 = map int [0..<FFT_SIZE]"
  by (simp add: iota_eq length_bitrev)

lemma brev_idx: "brev ten [0..<FFT_SIZE] = map rho [0..<FFT_SIZE]"
proof -
  have "map (nth (brev ten [0..<FFT_SIZE])) [0..<length (brev ten [0..<FFT_SIZE])]
      = brev ten [0..<FFT_SIZE]"
    by (rule map_nth)
  then show ?thesis by (simp add: rho_def [abs_def])
qed

lemma sint_bitrev: "p < FFT_SIZE \<Longrightarrow> sint (bitrev ! p) = int (rho p)"
proof -
  assume p: "p < FFT_SIZE"
  have "map sint bitrev = map int (brev ten [0..<FFT_SIZE])"
    by (simp only: bitrev_brev iota_bitrev brev_map)
  then have "map sint bitrev ! p = map int (brev ten [0..<FFT_SIZE]) ! p" by simp
  then show ?thesis using p by (simp add: length_bitrev rho_def)
qed

lemma bitrev_at_rho: "p < FFT_SIZE \<Longrightarrow> bitrev_at p = rho p"
  by (simp add: bitrev_at_def sint_bitrev)

lemma swaps_rho: "p < FFT_SIZE \<Longrightarrow> swaps p = (p < rho p)"
  by (simp add: swaps_def sint_bitrev)

lemma rho_less: "p < FFT_SIZE \<Longrightarrow> rho p < FFT_SIZE"
proof -
  assume p: "p < FFT_SIZE"
  then have "rho p \<in> set (brev ten [0..<FFT_SIZE])"
    unfolding rho_def by (intro nth_mem) simp
  then show ?thesis by simp
qed

lemma brev_brev_idx: "brev ten (brev ten [0..<FFT_SIZE]) = [0..<FFT_SIZE]"
proof -
  have "map int (brev ten (brev ten [0..<FFT_SIZE])) = map int [0..<FFT_SIZE]"
    using brev_brev_iota by (simp only: iota_bitrev brev_map)
  then show ?thesis by (simp add: inj_map_eq_map [OF inj_of_nat])
qed

lemma rho_rho: "p < FFT_SIZE \<Longrightarrow> rho (rho p) = p"
proof -
  assume p: "p < FFT_SIZE"
  have "brev ten (map rho [0..<FFT_SIZE]) = [0..<FFT_SIZE]"
    using brev_brev_idx by (simp only: brev_idx)
  then have "map rho (map rho [0..<FFT_SIZE]) = [0..<FFT_SIZE]"
    by (simp only: brev_map brev_idx)
  then have "map rho (map rho [0..<FFT_SIZE]) ! p = [0..<FFT_SIZE] ! p" by simp
  then show ?thesis using p by simp
qed

lemma brev_nth:
  assumes "length xs = FFT_SIZE" "p < FFT_SIZE"
  shows "brev ten xs ! p = xs ! rho p"
proof -
  have "xs = map (nth xs) [0..<FFT_SIZE]" using assms(1) map_nth [of xs] by simp
  then have "brev ten xs = map (nth xs) (brev ten [0..<FFT_SIZE])"
    by (metis brev_map)
  then show ?thesis using assms(2) by (simp add: brev_idx)
qed

lemma swap_at_length [simp]: "length (swap_at i r f) = length f"
  by (simp add: swap_at_def)

lemma swap_at_nth:
  assumes "i < length f" "r < length f"
  shows "swap_at i r f ! p = (if p = r then f ! i else if p = i then f ! r else f ! p)"
  using assms by (auto simp: swap_at_def nth_list_update)

lemma swap_loop:
  fixes perm :: "nat \<Rightarrow> nat"
  assumes inv: "\<And>i. i < n \<Longrightarrow> perm i < n \<and> perm (perm i) = i"
    and len: "length f = n" and t: "t \<le> n"
  shows "length (fold (\<lambda>i f. if i < perm i then swap_at i (perm i) f else f) [0..<t] f) = n \<and>
     (\<forall>p<n. fold (\<lambda>i f. if i < perm i then swap_at i (perm i) f else f) [0..<t] f ! p
          = (if p < t \<or> perm p < t then f ! perm p else f ! p))"
  using t
proof (induction t)
  case 0
  then show ?case using len by simp
next
  case (Suc t)
  define g where "g = fold (\<lambda>i f. if i < perm i then swap_at i (perm i) f else f) [0..<t] f"
  have IH: "length g = n" "\<And>p. p < n \<Longrightarrow> g ! p = (if p < t \<or> perm p < t then f ! perm p else f ! p)"
    using Suc unfolding g_def by auto
  have tn: "t < n" using Suc by simp
  have pt: "perm t < n" "perm (perm t) = t" using inv [OF tn] by auto
  have e: "fold (\<lambda>i f. if i < perm i then swap_at i (perm i) f else f) [0..<Suc t] f
      = (if t < perm t then swap_at t (perm t) g else g)"
    unfolding g_def by simp
  have "(if t < perm t then swap_at t (perm t) g else g) ! p
          = (if p < Suc t \<or> perm p < Suc t then f ! perm p else f ! p)" if p: "p < n" for p
  proof (cases "t < perm t")
    case True
    have gt: "g ! t = f ! t" using IH(2) [OF tn] True by simp
    have gpt: "g ! perm t = f ! perm t" using IH(2) [OF pt(1)] pt(2) True by simp
    have sw: "swap_at t (perm t) g ! p = (if p = perm t then g ! t else if p = t then g ! perm t else g ! p)"
      using swap_at_nth [of t g "perm t" p] IH(1) tn pt(1) by simp
    consider "p = t" | "p = perm t" | "p \<noteq> t" "p \<noteq> perm t" by blast
    then show ?thesis
    proof cases
      case 1
      then show ?thesis using True sw gpt by simp
    next
      case 2
      then show ?thesis using True sw gt pt by simp
    next
      case 3
      have "perm p \<noteq> t" using 3(2) inv [OF p] by auto
      then have "(p < Suc t \<or> perm p < Suc t) = (p < t \<or> perm p < t)"
        using 3(1) by (auto simp: less_Suc_eq)
      then show ?thesis using True sw 3 IH(2) [OF p] by simp
    qed
  next
    case False
    then have le: "perm t \<le> t" by simp
    show ?thesis
    proof (cases "p = t \<or> perm p = t")
      case True
      then have pp: "p = t \<or> p = perm t" using inv [OF p] by auto
      show ?thesis
      proof (cases "perm t = t")
        case True
        then have "p = t" using pp by auto
        then show ?thesis using False True IH(2) [OF tn] by simp
      next
        case F: False
        then have lt: "perm t < t" using le by simp
        from pp show ?thesis
        proof
          assume "p = t"
          then show ?thesis using False lt IH(2) [OF tn] by simp
        next
          assume "p = perm t"
          then show ?thesis using False lt pt IH(2) [OF pt(1)] by simp
        qed
      qed
    next
      case F: False
      then have "(p < Suc t \<or> perm p < Suc t) = (p < t \<or> perm p < t)"
        by (auto simp: less_Suc_eq)
      then show ?thesis using False IH(2) [OF p] by simp
    qed
  qed
  moreover have "length (if t < perm t then swap_at t (perm t) g else g) = n"
    using IH(1) by simp
  ultimately show ?case unfolding e by blast
qed

lemma fold_pair:
  "fold (\<lambda>i (a, b). (g i a, g i b)) xs (a, b) = (fold g xs a, fold g xs b)"
  by (induction xs arbitrary: a b) auto

lemma reorder_fold:
  "reorder (fr, fi) =
     (fold (\<lambda>i f. if i < rho i then swap_at i (rho i) f else f) [0..<FFT_SIZE] fr,
      fold (\<lambda>i f. if i < rho i then swap_at i (rho i) f else f) [0..<FFT_SIZE] fi)"
proof -
  let ?g = "\<lambda>i f. if i < rho i then swap_at i (rho i) f else f"
  have "fold reorder_step [0..<FFT_SIZE] (fr, fi)
      = fold (\<lambda>i (a, b). (?g i a, ?g i b)) [0..<FFT_SIZE] (fr, fi)"
    by (rule fold_cong) (auto simp: reorder_step_def swaps_rho bitrev_at_rho fun_eq_iff)
  then show ?thesis by (simp only: reorder_def for_loop_upt fold_pair)
qed

lemma reorder_one:
  assumes "length f = FFT_SIZE"
  shows "fold (\<lambda>i f. if i < rho i then swap_at i (rho i) f else f) [0..<FFT_SIZE] f = brev ten f"
proof (rule nth_equalityI)
  note sl = swap_loop [of FFT_SIZE rho f FFT_SIZE, OF _ assms order_refl]
  have inv: "\<And>i. i < FFT_SIZE \<Longrightarrow> rho i < FFT_SIZE \<and> rho (rho i) = i"
    using rho_less rho_rho by blast
  show "length (fold (\<lambda>i f. if i < rho i then swap_at i (rho i) f else f) [0..<FFT_SIZE] f)
      = length (brev ten f)"
    using sl inv assms by simp
  fix p assume "p < length (fold (\<lambda>i f. if i < rho i then swap_at i (rho i) f else f) [0..<FFT_SIZE] f)"
  then have p: "p < FFT_SIZE" using sl inv by simp
  then show "fold (\<lambda>i f. if i < rho i then swap_at i (rho i) f else f) [0..<FFT_SIZE] f ! p
      = brev ten f ! p"
    using sl inv brev_nth [OF assms p] by simp
qed

lemma reorder_brev:
  assumes "length fr = FFT_SIZE" "length fi = FFT_SIZE"
  shows "reorder (fr, fi) = (brev ten fr, brev ten fi)"
  by (simp only: reorder_fold reorder_one [OF assms(1)] reorder_one [OF assms(2)])

lemma brev_brev:
  assumes "length f = FFT_SIZE"
  shows "brev ten (brev ten f) = f"
proof (rule nth_equalityI)
  show "length (brev ten (brev ten f)) = length f" by simp
  fix p assume "p < length (brev ten (brev ten f))"
  then have p: "p < FFT_SIZE" using assms by simp
  have "brev ten (brev ten f) ! p = brev ten f ! rho p"
    using brev_nth [of "brev ten f" p] assms p by simp
  also have "\<dots> = f ! rho (rho p)" using brev_nth [OF assms rho_less [OF p]] .
  finally show "brev ten (brev ten f) ! p = f ! p" using rho_rho [OF p] by simp
qed


text \<open>
  Claim C4. The re-ordering loop of fix\_fft visits every index \<open>i < 1024\<close> once, in
  ascending order, and at \<open>i\<close> it swaps the samples at \<open>i\<close> and \<open>bitrev[i]\<close> in both
  buffers exactly when \<open>bitrev[i] > i\<close>. The table is an involution of the indices
  below 1024, and of the two members of a pair \<open>i \<noteq> bitrev[i]\<close> exactly one meets that
  test (a fixed point meets it never): every pair is swapped once in a pass. After the
  pass, position \<open>p\<close> of each buffer holds the sample that was at \<open>bitrev[p]\<close>, and the
  pass is its own inverse: applied twice to two buffers of \<open>FFT_SIZE = 1024\<close> samples it
  restores both exactly.
\<close>

theorem reorder_involution:
  assumes "length fr = FFT_SIZE" "length fi = FFT_SIZE"
  shows "reorder (reorder (fr, fi)) = (fr, fi)
     \<and> (\<forall>i<FFT_SIZE. bitrev_at i < FFT_SIZE \<and> bitrev_at (bitrev_at i) = i
           \<and> swaps i = (i < bitrev_at i)
           \<and> (if bitrev_at i = i then \<not> swaps i else swaps i \<noteq> swaps (bitrev_at i)))
     \<and> reorder (fr, fi) = fold reorder_step [0..<FFT_SIZE] (fr, fi)
     \<and> (\<forall>i<FFT_SIZE. \<forall>b. reorder_step i b =
           (if i < bitrev_at i
            then (swap_at i (bitrev_at i) (fst b), swap_at i (bitrev_at i) (snd b)) else b))
     \<and> length (fst (reorder (fr, fi))) = FFT_SIZE \<and> length (snd (reorder (fr, fi))) = FFT_SIZE
     \<and> (\<forall>p<FFT_SIZE. fst (reorder (fr, fi)) ! p = fr ! bitrev_at p
                    \<and> snd (reorder (fr, fi)) ! p = fi ! bitrev_at p)"
proof (intro conjI)
  have "reorder (reorder (fr, fi)) = reorder (brev ten fr, brev ten fi)"
    by (simp only: reorder_brev [OF assms])
  also have "\<dots> = (brev ten (brev ten fr), brev ten (brev ten fi))"
    using assms by (intro reorder_brev) simp_all
  finally show "reorder (reorder (fr, fi)) = (fr, fi)"
    by (simp only: brev_brev [OF assms(1)] brev_brev [OF assms(2)])
  show "\<forall>i<FFT_SIZE. bitrev_at i < FFT_SIZE \<and> bitrev_at (bitrev_at i) = i
           \<and> swaps i = (i < bitrev_at i)
           \<and> (if bitrev_at i = i then \<not> swaps i else swaps i \<noteq> swaps (bitrev_at i))"
  proof (intro allI impI)
    fix i assume i: "i < FFT_SIZE"
    have r: "rho i < FFT_SIZE" "rho (rho i) = i" using rho_less rho_rho i by auto
    show "bitrev_at i < FFT_SIZE \<and> bitrev_at (bitrev_at i) = i
           \<and> swaps i = (i < bitrev_at i)
           \<and> (if bitrev_at i = i then \<not> swaps i else swaps i \<noteq> swaps (bitrev_at i))"
      using r i by (auto simp: bitrev_at_rho swaps_rho)
  qed
  show "reorder (fr, fi) = fold reorder_step [0..<FFT_SIZE] (fr, fi)"
    by (simp only: reorder_def for_loop_upt)
  show "\<forall>i<FFT_SIZE. \<forall>b. reorder_step i b =
           (if i < bitrev_at i
            then (swap_at i (bitrev_at i) (fst b), swap_at i (bitrev_at i) (snd b)) else b)"
    by (auto simp: reorder_step_def swaps_rho bitrev_at_rho split_beta)
  show "length (fst (reorder (fr, fi))) = FFT_SIZE" "length (snd (reorder (fr, fi))) = FFT_SIZE"
    using assms by (simp_all add: reorder_brev [OF assms])
  show "\<forall>p<FFT_SIZE. fst (reorder (fr, fi)) ! p = fr ! bitrev_at p
                    \<and> snd (reorder (fr, fi)) ! p = fi ! bitrev_at p"
    using brev_nth [OF assms(1)] brev_nth [OF assms(2)]
    by (simp add: reorder_brev [OF assms] bitrev_at_rho)
qed

theorem reorder_involution_witness:
  "length (map word_of_nat [0..<FFT_SIZE] :: int16 list) = FFT_SIZE
   \<and> length (map (\<lambda>i. word_of_nat (1023 - i)) [0..<FFT_SIZE] :: int16 list) = FFT_SIZE
   \<and> reorder (reorder (map word_of_nat [0..<FFT_SIZE], map (\<lambda>i. word_of_nat (1023 - i)) [0..<FFT_SIZE]))
       = (map word_of_nat [0..<FFT_SIZE], map (\<lambda>i. word_of_nat (1023 - i)) [0..<FFT_SIZE])
   \<and> (1::nat) < FFT_SIZE \<and> bitrev_at 1 = 512 \<and> bitrev_at (bitrev_at 1) = 1
   \<and> swaps 1 \<and> \<not> swaps (bitrev_at 1)
   \<and> map word_of_nat [0..<FFT_SIZE] ! 1 = (1 :: int16)
   \<and> fst (reorder (map word_of_nat [0..<FFT_SIZE], map (\<lambda>i. word_of_nat (1023 - i)) [0..<FFT_SIZE])) ! 1
       = (512 :: int16)
   \<and> snd (reorder (map word_of_nat [0..<FFT_SIZE], map (\<lambda>i. word_of_nat (1023 - i)) [0..<FFT_SIZE])) ! 1
       = (511 :: int16)
   \<and> fst (reorder (map word_of_nat [0..<FFT_SIZE], map (\<lambda>i. word_of_nat (1023 - i)) [0..<FFT_SIZE])) ! 512
       = (1 :: int16)"
proof -
  let ?fr = "map word_of_nat [0..<FFT_SIZE] :: int16 list"
  let ?fi = "map (\<lambda>i. word_of_nat (1023 - i)) [0..<FFT_SIZE] :: int16 list"
  have l: "length ?fr = FFT_SIZE" "length ?fi = FFT_SIZE" by simp_all
  have o: "(1::nat) < FFT_SIZE" "(512::nat) < FFT_SIZE" by (simp_all add: FFT_SIZE_def)
  have b: "bitrev_at 1 = 512" "bitrev_at 512 = 1" by (simp_all add: bitrev_at_def bitrev_def)
  have n: "?fr ! 1 = 1" "?fr ! 512 = 512" "?fi ! 512 = 511"
    by (simp_all add: FFT_SIZE_def)
  note T = reorder_involution [OF l]
  have i1: "swaps 1" "\<not> swaps (bitrev_at 1)" "bitrev_at (bitrev_at 1) = 1"
    using T o b by auto
  have p1: "fst (reorder (?fr, ?fi)) ! 1 = ?fr ! bitrev_at 1"
     "snd (reorder (?fr, ?fi)) ! 1 = ?fi ! bitrev_at 1"
     "fst (reorder (?fr, ?fi)) ! 512 = ?fr ! bitrev_at 512"
    using T o by blast+
  have inv: "reorder (reorder (?fr, ?fi)) = (?fr, ?fi)" using T by blast
  show ?thesis
    using l o(1) b(1) i1 inv n(1) p1 [unfolded b n] by (intro conjI)
qed

section \<open>A stage, sample by sample\<close>

lemma buffers_eqI:
  assumes "len a n" "len b n" "\<And>p. p < n \<Longrightarrow> cell a p = cell b p"
  shows "a = b"
proof -
  have "fst a = fst b" using assms by (intro nth_equalityI) (auto simp: len_def cell_def)
  moreover have "snd a = snd b" using assms by (intro nth_equalityI) (auto simp: len_def cell_def)
  ultimately show ?thesis by (simp add: prod_eq_iff)
qed

lemma butterfly_len: "len b n \<Longrightarrow> len (butterfly shift wr wi step i b) n"
  by (cases b) (simp add: butterfly_def len_def Let_def)

lemma butterfly_cell:
  assumes "len b n" "i + step < n" "0 < step"
  shows "cell (butterfly shift wr wi step i b) p =
           (if p = i then bf_near shift (wr, wi) (cell b i) (cell b (i + step))
            else if p = i + step then bf_far shift (wr, wi) (cell b i) (cell b (i + step))
            else cell b p)"
  using assms
  by (cases b) (auto simp: butterfly_def len_def cell_def Let_def bf_near_def bf_far_def nth_list_update)

lemma idx_near:
  fixes step m t :: nat
  assumes "0 < step" "m < step"
  shows "(m + t * (2 * step)) mod (2 * step) = m" "(m + t * (2 * step)) div (2 * step) = t"
  using assms by simp_all

lemma idx_far:
  fixes step m t :: nat
  assumes "0 < step" "m < step"
  shows "(m + t * (2 * step) + step) mod (2 * step) = m + step"
        "(m + t * (2 * step) + step) div (2 * step) = t"
proof -
  have e: "m + t * (2 * step) + step = (m + step) + t * (2 * step)" by simp
  have l: "m + step < 2 * step" using assms by simp
  show "(m + t * (2 * step) + step) mod (2 * step) = m + step" 
    unfolding e using l by simp
  show "(m + t * (2 * step) + step) div (2 * step) = t" 
    unfolding e using l by simp
qed

lemma idx_split: "(p::nat) = p mod (2 * step) + (p div (2 * step)) * (2 * step)"
  by (simp add: mod_div_mult_eq)

lemma inner_loop:
  assumes L: "len b n" and n: "n = c * (2 * step)" and s: "0 < step" and m: "m < step" and c': "c' \<le> c"
  shows "len (fold (butterfly shift wr wi step) (map (\<lambda>t. m + t * (2 * step)) [0..<c']) b) n \<and>
    (\<forall>p<n. cell (fold (butterfly shift wr wi step) (map (\<lambda>t. m + t * (2 * step)) [0..<c']) b) p =
       (if (p mod (2 * step) = m \<or> p mod (2 * step) = m + step) \<and> p div (2 * step) < c'
        then stage_cell shift (\<lambda>_. (wr, wi)) step b p else cell b p))"
  using c'
proof (induction c')
  case 0
  then show ?case using L by simp
next
  case (Suc t)
  define R where "R = fold (butterfly shift wr wi step) (map (\<lambda>t. m + t * (2 * step)) [0..<t]) b"
  define i where "i = m + t * (2 * step)"
  have IH: "len R n" "\<And>p. p < n \<Longrightarrow> cell R p =
       (if (p mod (2 * step) = m \<or> p mod (2 * step) = m + step) \<and> p div (2 * step) < t
        then stage_cell shift (\<lambda>_. (wr, wi)) step b p else cell b p)"
    using Suc unfolding R_def by auto
  have tc: "Suc t \<le> c" using Suc by simp
  then have "Suc t * (2 * step) \<le> c * (2 * step)" by (rule mult_le_mono1)
  then have jn: "i + step < n" using m n unfolding i_def by simp
  have im: "i mod (2 * step) = m" "i div (2 * step) = t"
    unfolding i_def using idx_near [OF s m] by auto
  have jm: "(i + step) mod (2 * step) = m + step" "(i + step) div (2 * step) = t"
    unfolding i_def using idx_far [OF s m] by auto
  have ci: "cell R i = cell b i" using IH(2) [of i] jn im by simp
  have cj: "cell R (i + step) = cell b (i + step)" using IH(2) [of "i + step"] jn jm by simp
  have fold_eq: "fold (butterfly shift wr wi step) (map (\<lambda>t. m + t * (2 * step)) [0..<Suc t]) b
      = butterfly shift wr wi step i R"
    unfolding R_def i_def by simp
  have "len (butterfly shift wr wi step i R) n" using IH(1) by (rule butterfly_len)
  moreover have "cell (butterfly shift wr wi step i R) p =
       (if (p mod (2 * step) = m \<or> p mod (2 * step) = m + step) \<and> p div (2 * step) < Suc t
        then stage_cell shift (\<lambda>_. (wr, wi)) step b p else cell b p)" if p: "p < n" for p
  proof -
    have bc: "cell (butterfly shift wr wi step i R) p =
           (if p = i then bf_near shift (wr, wi) (cell b i) (cell b (i + step))
            else if p = i + step then bf_far shift (wr, wi) (cell b i) (cell b (i + step))
            else cell R p)"
      using butterfly_cell [OF IH(1) jn s] ci cj by simp
    consider "p = i" | "p = i + step" | "p \<noteq> i" "p \<noteq> i + step" by blast
    then show ?thesis
    proof cases
      case 1
      then show ?thesis using bc im m by (simp add: stage_cell_def)
    next
      case 2
      then show ?thesis using bc jm m s by (simp add: stage_cell_def)
    next
      case 3
      have a: "\<not> (p mod (2 * step) = m \<and> p div (2 * step) = t)"
        using 3(1) idx_split [of p step] unfolding i_def by auto
      have b: "\<not> (p mod (2 * step) = m + step \<and> p div (2 * step) = t)"
        using 3(2) idx_split [of p step] unfolding i_def by auto
      have "((p mod (2 * step) = m \<or> p mod (2 * step) = m + step) \<and> p div (2 * step) < Suc t)
          = ((p mod (2 * step) = m \<or> p mod (2 * step) = m + step) \<and> p div (2 * step) < t)"
        using a b by (auto simp: less_Suc_eq)
      then show ?thesis using bc 3 IH(2) [OF p] by simp
    qed
  qed
  ultimately show ?case unfolding fold_eq by blast
qed

lemma mod_plus_step:
  fixes p step :: nat
  assumes "p mod (2 * step) < step"
  shows "(p + step) mod (2 * step) = p mod (2 * step) + step"
proof -
  have "(p + step) mod (2 * step) = (p mod (2 * step) + step) mod (2 * step)"
    by (simp add: mod_add_left_eq)
  also have "\<dots> = p mod (2 * step) + step" using assms by simp
  finally show ?thesis .
qed

lemma mod_minus_step:
  fixes p step :: nat
  assumes "step \<le> p mod (2 * step)"
  shows "(p - step) mod (2 * step) = p mod (2 * step) - step" "step \<le> p"
proof -
  have le: "p mod (2 * step) \<le> p" by simp
  show sp: "step \<le> p" using assms le by linarith
  define r where "r = p mod (2 * step) - step"
  define q where "q = p div (2 * step)"
  have e: "p - step = r + q * (2 * step)"
    unfolding r_def q_def using assms idx_split [of p step] by linarith
  show "(p - step) mod (2 * step) = p mod (2 * step) - step"
  proof (cases "step = 0")
    case True
    then show ?thesis by simp
  next
    case False
    then have "p mod (2 * step) < 2 * step" by simp
    then have "r < 2 * step" unfolding r_def by simp
    then have "(r + q * (2 * step)) mod (2 * step) = r" by simp
    then show ?thesis unfolding e r_def .
  qed
qed

lemma near_in_range:
  fixes p step c :: nat
  assumes "p < c * (2 * step)" "p mod (2 * step) < step"
  shows "p + step < c * (2 * step)"
proof -
  have d: "p div (2 * step) < c" using assms(1)
    by (metis less_mult_imp_div_less)
  then have "Suc (p div (2 * step)) * (2 * step) \<le> c * (2 * step)"
    by (intro mult_le_mono1) simp
  moreover have "p + step < Suc (p div (2 * step)) * (2 * step)"
    using assms(2) idx_split [of p step] by simp
  ultimately show ?thesis by linarith
qed

lemma outer_loop:
  assumes L: "len b n" and n: "n = c * (2 * step)" and s: "0 < step" and M: "M \<le> step"
  shows "len (fold (\<lambda>m. fold (butterfly shift (fst (tw m)) (snd (tw m)) step)
                  (map (\<lambda>t. m + t * (2 * step)) [0..<c])) [0..<M] b) n \<and>
    (\<forall>p<n. cell (fold (\<lambda>m. fold (butterfly shift (fst (tw m)) (snd (tw m)) step)
                  (map (\<lambda>t. m + t * (2 * step)) [0..<c])) [0..<M] b) p =
       (if p mod (2 * step) < M \<or> (step \<le> p mod (2 * step) \<and> p mod (2 * step) < step + M)
        then stage_cell shift tw step b p else cell b p))"
  using M
proof (induction M)
  case 0
  then show ?case using L by auto
next
  case (Suc M)
  let ?G = "\<lambda>m. fold (butterfly shift (fst (tw m)) (snd (tw m)) step)
                  (map (\<lambda>t. m + t * (2 * step)) [0..<c])"
  define R where "R = fold ?G [0..<M] b"
  have IH: "len R n" "\<And>p. p < n \<Longrightarrow> cell R p =
       (if p mod (2 * step) < M \<or> (step \<le> p mod (2 * step) \<and> p mod (2 * step) < step + M)
        then stage_cell shift tw step b p else cell b p)"
    using Suc unfolding R_def by auto
  have Ms: "M < step" using Suc by simp
  have fold_eq: "fold ?G [0..<Suc M] b = ?G M R" unfolding R_def by simp
  note inner = inner_loop [OF IH(1) n s Ms order_refl, of shift "fst (tw M)" "snd (tw M)"]
  have "cell (?G M R) p =
       (if p mod (2 * step) < Suc M \<or> (step \<le> p mod (2 * step) \<and> p mod (2 * step) < step + Suc M)
        then stage_cell shift tw step b p else cell b p)" if p: "p < n" for p
  proof -
    have d: "p div (2 * step) < c" using p n by (metis less_mult_imp_div_less)
    have c1: "cell (?G M R) p =
       (if p mod (2 * step) = M \<or> p mod (2 * step) = M + step
        then stage_cell shift (\<lambda>_. tw M) step R p else cell R p)"
      using inner p d by simp
    consider "p mod (2 * step) = M" | "p mod (2 * step) = M + step"
      | "p mod (2 * step) \<noteq> M" "p mod (2 * step) \<noteq> M + step" by blast
    then show ?thesis
    proof cases
      case 1
      have q: "p + step < n" using near_in_range [of p c step] p n 1 Ms by simp
      have qm: "(p + step) mod (2 * step) = M + step" using mod_plus_step [of p step] 1 Ms by simp
      have "cell R p = cell b p" using IH(2) [OF p] 1 Ms by simp
      moreover have "cell R (p + step) = cell b (p + step)" using IH(2) [OF q] qm by simp
      ultimately show ?thesis using c1 1 Ms by (simp add: stage_cell_def)
    next
      case 2
      have sp: "step \<le> p" and qm: "(p - step) mod (2 * step) = M"
        using mod_minus_step [of step p] 2 by simp_all
      have q: "p - step < n" using p by simp
      have "cell R p = cell b p" using IH(2) [OF p] 2 Ms by simp
      moreover have "cell R (p - step) = cell b (p - step)" using IH(2) [OF q] qm Ms by simp
      ultimately show ?thesis using c1 2 Ms by (simp add: stage_cell_def)
    next
      case 3
      have "(p mod (2 * step) < Suc M \<or> (step \<le> p mod (2 * step) \<and> p mod (2 * step) < step + Suc M))
          = (p mod (2 * step) < M \<or> (step \<le> p mod (2 * step) \<and> p mod (2 * step) < step + M))"
        using 3 by (auto simp: less_Suc_eq)
      then show ?thesis using c1 3 IH(2) [OF p] by simp
    qed
  qed
  moreover have "len (?G M R) n" using inner by simp
  ultimately show ?case unfolding fold_eq by blast
qed

lemma group_pass_fold:
  assumes "FFT_SIZE = c * (2 * step)" "0 < step" "m < step"
  shows "group_pass inverse' shift k step m b =
     fold (butterfly shift (fst (twiddle inverse' shift m k)) (snd (twiddle inverse' shift m k)) step)
       (map (\<lambda>t. m + t * (2 * step)) [0..<c]) b"
proof -
  have "for_loop (m + 0 * (2 * step)) (c * (2 * step)) (2 * step) body b
      = fold body (map (\<lambda>t. m + t * (2 * step)) [0..<c]) b" for body :: "nat \<Rightarrow> buffers \<Rightarrow> buffers"
    using assms by (intro for_loop_stride) auto
  then show ?thesis
    using assms(1) by (simp add: group_pass_def split_beta mult.commute)
qed

lemma stage_buffers:
  assumes L: "len b FFT_SIZE" and n: "FFT_SIZE = c * (2 * step)" and s: "0 < step"
  shows "len (for_loop 0 step 1 (group_pass inverse' shift k step) b) FFT_SIZE"
    and "p < FFT_SIZE \<Longrightarrow> cell (for_loop 0 step 1 (group_pass inverse' shift k step) b) p
           = stage_cell shift (\<lambda>m. twiddle inverse' shift m k) step b p"
proof -
  let ?tw = "\<lambda>m. twiddle inverse' shift m k"
  let ?G = "\<lambda>m. fold (butterfly shift (fst (?tw m)) (snd (?tw m)) step)
                  (map (\<lambda>t. m + t * (2 * step)) [0..<c])"
  have "fold (group_pass inverse' shift k step) [0..<step] b = fold ?G [0..<step] b"
    by (rule fold_cong) (auto simp: group_pass_fold [OF n s])
  then have e: "for_loop 0 step 1 (group_pass inverse' shift k step) b = fold ?G [0..<step] b"
    by (simp only: for_loop_upt)
  note o = outer_loop [OF L n s order_refl, of shift ?tw]
  show "len (for_loop 0 step 1 (group_pass inverse' shift k step) b) FFT_SIZE"
    unfolding e using o by simp
  show "cell (for_loop 0 step 1 (group_pass inverse' shift k step) b) p
           = stage_cell shift ?tw step b p" if "p < FFT_SIZE"
  proof -
    have "p mod (2 * step) < step \<or> (step \<le> p mod (2 * step) \<and> p mod (2 * step) < step + step)"
      using mod_less_divisor [of "2 * step" p] s by linarith
    then show ?thesis unfolding e using o that by simp
  qed
qed

section \<open>The evaluation functions compute the stages\<close>

lemma drop_by_eq: "drop_by ws xs = drop (length ws) xs"
  by (induction ws xs rule: drop_by.induct) auto

lemma zip3_eq: "zip3 f ws as bs = map (\<lambda>(w, a, b). f w a b) (zip ws (zip as bs))"
  by (induction f ws as bs rule: zip3.induct) auto

lemma fsts_eq: "fsts ps r = map fst ps @ r"
  by (induction ps r rule: fsts.induct) auto

lemma snds_eq: "snds ps r = map snd ps @ r"
  by (induction ps r rule: snds.induct) auto

lemma emit_eq: "emit ps r = map fst ps @ map snd ps @ r"
  by (simp add: emit_def fsts_eq snds_eq)

lemma blocks_step:
  assumes "xs \<noteq> []"
  shows "blocks (u # fuel) f ws xs =
     map fst (zip3 f ws xs (drop (length ws) xs)) @ map snd (zip3 f ws xs (drop (length ws) xs))
       @ blocks fuel f ws (drop (2 * length ws) xs)"
  using assms by (cases xs) (simp_all add: emit_eq drop_by_eq mult_2)

lemma blocks_cells:
  assumes ws: "length ws = step" and s: "0 < step"
  shows "length xs = c * (2 * step) \<Longrightarrow> c \<le> length fuel \<Longrightarrow>
     length (blocks fuel f ws xs) = c * (2 * step) \<and>
     (\<forall>p < c * (2 * step). blocks fuel f ws xs ! p = blk_cell f ws step xs p)"
proof (induction c arbitrary: xs fuel)
  case 0
  then show ?case by simp
next
  case (Suc c)
  from Suc.prems obtain u fuel' where fuel: "fuel = u # fuel'" and cf: "c \<le> length fuel'"
    by (cases fuel) auto
  have lx: "length xs = 2 * step + c * (2 * step)" using Suc.prems by simp
  then have ne: "xs \<noteq> []" using s by auto
  define ps where "ps = zip3 f ws xs (drop step xs)"
  define rest where "rest = drop (2 * step) xs"
  have lr: "length rest = c * (2 * step)" unfolding rest_def using lx by simp
  have lps: "length ps = step" unfolding ps_def using ws lx by (simp add: zip3_eq)
  have psn: "ps ! m = f (ws ! m) (xs ! m) (xs ! (m + step))" if "m < step" for m
    unfolding ps_def using that ws lx by (simp add: zip3_eq add.commute)
  have e: "blocks fuel f ws xs = map fst ps @ map snd ps @ blocks fuel' f ws rest"
    unfolding fuel ps_def rest_def by (simp add: blocks_step [OF ne] ws)
  note IH = Suc.IH [OF lr cf]
  have len: "length (blocks fuel f ws xs) = Suc c * (2 * step)"
    unfolding e using IH lps by simp
  have "blocks fuel f ws xs ! p = blk_cell f ws step xs p" if p: "p < Suc c * (2 * step)" for p
  proof -
    consider "p < step" | "step \<le> p" "p < 2 * step" | "2 * step \<le> p" by linarith
    then show ?thesis
    proof cases
      case 1
      then have "p mod (2 * step) = p" by simp
      then show ?thesis unfolding e using 1 lps psn by (simp add: nth_append blk_cell_def)
    next
      case 2
      then have m: "p mod (2 * step) = p" by simp
      have ps: "p - step < step" using 2 by linarith
      have "(map fst ps @ map snd ps @ blocks fuel' f ws rest) ! p = snd (ps ! (p - step))"
        using 2 lps ps by (simp add: nth_append)
      then show ?thesis unfolding e using 2 m psn [of "p - step"] by (simp add: blk_cell_def)
    next
      case 3
      define q where "q = p - 2 * step"
      have pq: "p = q + 2 * step" unfolding q_def using 3 by simp
      have q: "q < c * (2 * step)" using p unfolding pq by simp
      have qm: "p mod (2 * step) = q mod (2 * step)" unfolding pq by simp
      have r1: "rest ! q = xs ! p" "rest ! (q + step) = xs ! (p + step)"
        unfolding rest_def pq using lx q by (simp_all add: add.commute add.left_commute)
      have r2: "rest ! (q - step) = xs ! (p - step)" if "step \<le> q mod (2 * step)"
      proof -
        have "q mod (2 * step) \<le> q" by simp
        then have "step \<le> q" using that by linarith
        then have "p - step = (q - step) + 2 * step" unfolding pq by simp
        then show ?thesis unfolding rest_def using lx q by (simp add: add.commute)
      qed
      have "(map fst ps @ map snd ps) @ blocks fuel' f ws rest = map fst ps @ map snd ps @ blocks fuel' f ws rest"
        by simp
      moreover have "((map fst ps @ map snd ps) @ blocks fuel' f ws rest) ! (length (map fst ps @ map snd ps) + q)
          = blocks fuel' f ws rest ! q"
        by (rule nth_append_length_plus)
      moreover have "length (map fst ps @ map snd ps) + q = p" using lps unfolding pq by simp
      ultimately have "(map fst ps @ map snd ps @ blocks fuel' f ws rest) ! p = blocks fuel' f ws rest ! q"
        by simp
      also have "\<dots> = blk_cell f ws step rest q" using IH q by simp
      also have "\<dots> = blk_cell f ws step xs p"
        unfolding blk_cell_def qm using r1 r2 by (auto simp: not_less)
      finally show ?thesis unfolding e .
    qed
  qed
  then show ?case using len by blast
qed

lemma sint_of_int16:
  assumes "- 32768 \<le> x" "x \<le> 32767"
  shows "sint (word_of_int x :: int16) = x"
  using assms by (simp add: sint_sbintrunc' signed_take_bit_int_eq_self_iff)

lemma half_sdiv: "half x = x sdiv 2"
  by (auto simp: half_def signed_divide_int_def sgn_if)

lemma half_range:
  assumes "- 32768 \<le> x" "x \<le> 32767"
  shows "- 32768 \<le> half x" "half x \<le> 32767"
  using assms by (auto simp: half_def)

lemma c_div2_of_int:
  assumes "- 32768 \<le> x" "x \<le> 32767"
  shows "c_div2 (word_of_int x) = word_of_int (half x)"
  using assms by (simp add: c_div2_def sint_of_int16 half_sdiv)

lemma FIX_MPY_ints:
  assumes "- 32768 \<le> a" "a \<le> 32767" "- 32768 \<le> b" "b \<le> 32767"
  shows "FIX_MPY (word_of_int a) (word_of_int b) = word_of_int (mpy a b)"
  using assms by (simp add: FIX_MPY_of_int sint_of_int16 mpy_def)

lemma wrap16_mod: "wrap16 x = (x + 32768) mod 65536 - 32768"
proof (cases "- 32768 \<le> x \<and> x \<le> 32767")
  case True
  then have "(x + 32768) mod 65536 = x + 32768" by simp
  then show ?thesis using True by (simp add: wrap16_def)
next
  case False
  then show ?thesis by (simp add: wrap16_def)
qed

lemma wrap16_range: "- 32768 \<le> wrap16 x" "wrap16 x \<le> 32767"
proof -
  have "0 \<le> (x + 32768) mod 65536" "(x + 32768) mod 65536 < 65536" by simp_all
  then show "- 32768 \<le> wrap16 x" "wrap16 x \<le> 32767" unfolding wrap16_mod by linarith+
qed

lemma word_of_int_wrap16: "(word_of_int (wrap16 x) :: int16) = word_of_int x"
proof -
  have m: "(word_of_int (y mod 65536) :: int16) = word_of_int y" for y
    by (simp add: word_of_int_eq_iff take_bit_eq_mod)
  have "(word_of_int (wrap16 x) :: int16)
      = word_of_int ((x + 32768) mod 65536) - word_of_int 32768"
    by (simp add: wrap16_mod)
  also have "\<dots> = word_of_int (x + 32768) - word_of_int 32768"
    by (simp only: m)
  finally show ?thesis by simp
qed

lemma FIX_MPY_zero [simp]: "FIX_MPY a 0 = 0"
  by (simp add: FIX_MPY_of_int)

lemma inr_hv: "- 32768 \<le> x \<Longrightarrow> x \<le> 32767 \<Longrightarrow> - 32768 \<le> hv sh x \<and> hv sh x \<le> 32767"
  by (cases sh) (auto simp: half_range)

lemma word_hv:
  assumes "- 32768 \<le> x" "x \<le> 32767"
  shows "(word_of_int (hv sh x) :: int16) = (if sh then c_div2 (word_of_int x) else word_of_int x)"
  using assms by (cases sh) (simp_all add: c_div2_of_int)

lemma bf_correct:
  assumes "inr w" "inr a" "inr b"
  shows "W (fst (bf wrap16 sh w a b)) = bf_near sh (W w) (W a) (W b)"
    and "W (snd (bf wrap16 sh w a b)) = bf_far sh (W w) (W a) (W b)"
    and "inr (fst (bf wrap16 sh w a b))" and "inr (snd (bf wrap16 sh w a b))"
proof -
  obtain wr wi ar ai br bi where e: "w = (wr, wi)" "a = (ar, ai)" "b = (br, bi)"
    by (cases w, cases a, cases b) auto
  have r: "- 32768 \<le> wr" "wr \<le> 32767" "- 32768 \<le> wi" "wi \<le> 32767"
     "- 32768 \<le> ar" "ar \<le> 32767" "- 32768 \<le> ai" "ai \<le> 32767"
     "- 32768 \<le> br" "br \<le> 32767" "- 32768 \<le> bi" "bi \<le> 32767"
    using assms unfolding e inr_def by simp_all
  have m: "FIX_MPY (word_of_int wr) (word_of_int br) = word_of_int (mpy wr br)"
     "FIX_MPY (word_of_int wi) (word_of_int bi) = word_of_int (mpy wi bi)"
     "FIX_MPY (word_of_int wr) (word_of_int bi) = word_of_int (mpy wr bi)"
     "FIX_MPY (word_of_int wi) (word_of_int br) = word_of_int (mpy wi br)"
    using r by (simp_all add: FIX_MPY_ints)
  note h = word_hv [OF r(5,6), of sh] word_hv [OF r(7,8), of sh]
  note hr = inr_hv [OF r(5,6), of sh] inr_hv [OF r(7,8), of sh]
  define z where "z = (br = 0 \<and> bi = 0)"
  have bfz: "bf wrap16 sh w a b = bf0 z wrap16 sh wr wi ar ai br bi" unfolding e z_def by simp
  show "W (fst (bf wrap16 sh w a b)) = bf_near sh (W w) (W a) (W b)"
  proof (cases z)
    case True
    then have "br = 0" "bi = 0" unfolding z_def by auto
    then show ?thesis unfolding bfz using True h
      by (simp add: e W_def bf_near_def)
  next
    case False
    then show ?thesis unfolding bfz using h
      by (simp add: e W_def bf_near_def m bf2_def word_of_int_wrap16)
  qed
  show "W (snd (bf wrap16 sh w a b)) = bf_far sh (W w) (W a) (W b)"
  proof (cases z)
    case True
    then have "br = 0" "bi = 0" unfolding z_def by auto
    then show ?thesis unfolding bfz using True h
      by (simp add: e W_def bf_far_def)
  next
    case False
    then show ?thesis unfolding bfz using h
      by (simp add: e W_def bf_far_def m bf2_def word_of_int_wrap16)
  qed
  show "inr (fst (bf wrap16 sh w a b))" unfolding bfz using hr
    by (cases z) (simp_all add: inr_def bf2_def wrap16_range)
  show "inr (snd (bf wrap16 sh w a b))" unfolding bfz using hr
    by (cases z) (simp_all add: inr_def bf2_def wrap16_range)
qed

lemma scan_eq: "scan b xs = (b \<or> (\<exists>x\<in>set xs. oor x))"
  by (induction b xs rule: scan.induct) auto

lemma len_unz [simp]: "len (unz xs) n = (length xs = n)"
  by (auto simp: len_def unz_def)

lemma cell_unz: "p < length xs \<Longrightarrow> cell (unz xs) p = W (xs ! p)"
  by (simp add: cell_def unz_def W_def)

lemma oor_out_of_range:
  assumes "inr a"
  shows "out_of_range (fst (W a)) (snd (W a)) = oor a"
  using assms by (simp add: out_of_range_def oor_def W_def inr_def sint_of_int16)

lemma exceeds_unz:
  assumes "length xs = FFT_SIZE" "\<forall>x\<in>set xs. inr x"
  shows "(\<exists>j<FFT_SIZE. out_of_range (fst (unz xs) ! j) (snd (unz xs) ! j)) = scan False xs"
proof -
  have "out_of_range (fst (unz xs) ! j) (snd (unz xs) ! j) = oor (xs ! j)" if "j < FFT_SIZE" for j
    using oor_out_of_range [of "xs ! j"] assms that by (simp add: unz_def W_def)
  then have "(\<exists>j<FFT_SIZE. out_of_range (fst (unz xs) ! j) (snd (unz xs) ! j))
      = (\<exists>j<length xs. oor (xs ! j))"
    using assms(1) by auto
  also have "\<dots> = (\<exists>x\<in>set xs. oor x)" by (metis in_set_conv_nth)
  finally show ?thesis by (simp add: scan_eq)
qed

lemma inr_tw_of:
  assumes "inr cs" "- 32767 \<le> snd cs"
  shows "inr (tw_of iv sh cs)"
proof -
  obtain c s where e: "cs = (c, s)" by (cases cs)
  have "- 32768 \<le> - s \<and> - s \<le> 32767" using assms unfolding e inr_def by simp
  then show ?thesis
    using assms inr_hv [of c sh] inr_hv [of s sh] inr_hv [of "- s" sh]
    unfolding e by (cases iv) (simp_all add: inr_def)
qed

text \<open>One stage of the model on the buffers of a list of integer samples.\<close>

lemma stage_blocks:
  assumes lx: "length xs = FFT_SIZE" and ix: "\<forall>x\<in>set xs. inr x"
    and n: "FFT_SIZE = c * (2 * step)" and s: "0 < step" and lt: "length t = step"
    and tw: "\<And>m. m < step \<Longrightarrow> twiddle inverse' shift m k = W (tw_of inverse' shift (t ! m))
                \<and> inr (tw_of inverse' shift (t ! m))"
  shows "for_loop 0 step 1 (group_pass inverse' shift k step) (unz xs)
           = unz (blocks xs (bf wrap16 shift) (map (tw_of inverse' shift) t) xs)"
    and "\<forall>y\<in>set (blocks xs (bf wrap16 shift) (map (tw_of inverse' shift) t) xs). inr y"
    and "length (blocks xs (bf wrap16 shift) (map (tw_of inverse' shift) t) xs) = FFT_SIZE"
proof -
  let ?ws = "map (tw_of inverse' shift) t"
  let ?ys = "blocks xs (bf wrap16 shift) ?ws xs"
  let ?R = "for_loop 0 step 1 (group_pass inverse' shift k step) (unz xs)"
  have "c * 1 \<le> c * (2 * step)" using s by (intro mult_le_mono2) simp
  then have c: "c \<le> length xs" using n lx by simp
  have lws: "length ?ws = step" using lt by simp
  have lxc: "length xs = c * (2 * step)" using lx n by simp
  note B = blocks_cells [OF lws s lxc c, of "bf wrap16 shift"]
  have ly: "length ?ys = FFT_SIZE" using B n by simp
  have yp: "?ys ! p = blk_cell (bf wrap16 shift) ?ws step xs p" if "p < FFT_SIZE" for p
    using B that n by simp
  have L: "len (unz xs) FFT_SIZE" using lx by simp
  note S = stage_buffers [OF L n s]
  have ixn: "inr (xs ! p)" if "p < FFT_SIZE" for p using ix lx that by simp
  have cells: "W (?ys ! p) = cell ?R p \<and> inr (?ys ! p)" if p: "p < FFT_SIZE" for p
  proof (cases "p mod (2 * step) < step")
    case True
    have q: "p + step < FFT_SIZE" using near_in_range [of p c step] p n True by simp
    have m: "p mod (2 * step) < step" using True .
    note T = tw [OF m]
    have "cell ?R p = bf_near shift (twiddle inverse' shift (p mod (2 * step)) k)
              (W (xs ! p)) (W (xs ! (p + step)))"
      using S(2) [OF p] True p q lx by (simp add: stage_cell_def cell_unz)
    moreover have "?ys ! p = fst (bf wrap16 shift (tw_of inverse' shift (t ! (p mod (2 * step))))
              (xs ! p) (xs ! (p + step)))"
      using yp [OF p] True lt by (simp add: blk_cell_def)
    ultimately show ?thesis
      using bf_correct(1,3) [of "tw_of inverse' shift (t ! (p mod (2 * step)))" "xs ! p" "xs ! (p + step)" shift]
        T ixn [OF p] ixn [OF q] by simp
  next
    case False
    then have ge: "step \<le> p mod (2 * step)" by simp
    have sp: "step \<le> p" using mod_minus_step(2) [OF ge] .
    have q: "p - step < FFT_SIZE" using p by simp
    have "p mod (2 * step) < 2 * step" using s by simp
    then have m: "p mod (2 * step) - step < step" using ge by linarith
    note T = tw [OF m]
    have "cell ?R p = bf_far shift (twiddle inverse' shift (p mod (2 * step) - step) k)
              (W (xs ! (p - step))) (W (xs ! p))"
      using S(2) [OF p] False p q lx by (simp add: stage_cell_def cell_unz)
    moreover have "?ys ! p = snd (bf wrap16 shift (tw_of inverse' shift (t ! (p mod (2 * step) - step)))
              (xs ! (p - step)) (xs ! p))"
      using yp [OF p] False lt m by (simp add: blk_cell_def)
    ultimately show ?thesis
      using bf_correct(2,4) [of "tw_of inverse' shift (t ! (p mod (2 * step) - step))" "xs ! (p - step)" "xs ! p" shift]
        T ixn [OF p] ixn [OF q] by simp
  qed
  show "?R = unz ?ys"
  proof (rule buffers_eqI [of _ FFT_SIZE])
    show "len ?R FFT_SIZE" using S(1) .
    show "len (unz ?ys) FFT_SIZE" using ly by simp
    show "cell ?R p = cell (unz ?ys) p" if "p < FFT_SIZE" for p
      using cells [OF that] that ly by (simp add: cell_unz)
  qed
  show "\<forall>y\<in>set ?ys. inr y"
  proof
    fix y assume "y \<in> set ?ys"
    then obtain p where "p < length ?ys" "?ys ! p = y" by (auto simp: in_set_conv_nth)
    then show "inr y" using cells [of p] ly by auto
  qed
  show "length ?ys = FFT_SIZE" using ly .
qed

lemma all_ge_iff: "all_ge b c xs = (b \<and> (\<forall>x\<in>set xs. c \<le> x))"
  by (induction b c xs rule: all_ge.induct) auto

lemma SineI_min: "all_ge True (- 32767) SineI"
  by code_simp

lemma SineI_Sine: "SineI = map sint Sine"
  by (rule eqs_eq) code_simp

lemma Sine_min: "\<forall>w\<in>set Sine. - 32767 \<le> sint w"
  using SineI_min by (simp add: all_ge_iff SineI_Sine)

lemma length_SineI: "length SineI = 768"
  by (simp add: SineI_Sine length_Sine)

lemma SineI_nth:
  assumes "j < 768"
  shows "Sine ! j = word_of_int (SineI ! j)" "- 32767 \<le> SineI ! j" "SineI ! j \<le> 32767"
proof -
  have e: "SineI ! j = sint (Sine ! j)" using assms by (simp add: SineI_Sine length_Sine)
  show "Sine ! j = word_of_int (SineI ! j)" unfolding e by simp
  have "Sine ! j \<in> set Sine" using assms by (simp add: length_Sine)
  then show "- 32767 \<le> SineI ! j" unfolding e using Sine_min by blast
  show "SineI ! j \<le> 32767" unfolding e using sint16_range [of "Sine ! j"] by simp
qed

lemma base_eq: "base = zip (drop 256 SineI) SineI"
  by (simp add: base_def drop_by_eq)

lemma length_base: "length base = 512"
  by (simp add: base_eq length_SineI)

lemma base_nth: "j < 512 \<Longrightarrow> base ! j = (SineI ! (j + 256), SineI ! j)"
  by (simp add: base_eq length_SineI add.commute)

lemma evens_nth: "2 * m < length xs \<Longrightarrow> evens xs ! m = xs ! (2 * m)"
proof (induction xs arbitrary: m rule: evens.induct)
  case (1 x y zs)
  then show ?case by (cases m) auto
next
  case (2 x)
  then show ?case by simp
next
  case 3
  then show ?case by simp
qed

lemma length_evens: "length (evens xs) = (length xs + 1) div 2"
  by (induction xs rule: evens.induct) auto

lemma funpow_evens:
  assumes "length xs = 2 ^ n"
  shows "i \<le> n \<Longrightarrow> length ((evens ^^ i) xs) = 2 ^ (n - i)
           \<and> (\<forall>m < 2 ^ (n - i). (evens ^^ i) xs ! m = xs ! (m * 2 ^ i))"
proof (induction i)
  case 0
  then show ?case using assms by simp
next
  case (Suc i)
  then have IH: "length ((evens ^^ i) xs) = 2 ^ (n - i)"
      "\<And>m. m < 2 ^ (n - i) \<Longrightarrow> (evens ^^ i) xs ! m = xs ! (m * 2 ^ i)"
    by auto
  have ni: "n - i = Suc (n - Suc i)" using Suc.prems by simp
  have l: "length ((evens ^^ Suc i) xs) = 2 ^ (n - Suc i)"
    using IH(1) unfolding ni by (simp add: length_evens)
  have "(evens ^^ Suc i) xs ! m = xs ! (m * 2 ^ Suc i)" if m: "m < 2 ^ (n - Suc i)" for m
  proof -
    have m2: "2 * m < 2 ^ (n - i)" using m unfolding ni by simp
    then have "evens ((evens ^^ i) xs) ! m = (evens ^^ i) xs ! (2 * m)"
      using IH(1) by (intro evens_nth) simp
    also have "\<dots> = xs ! ((2 * m) * 2 ^ i)" using IH(2) [OF m2] .
    finally show ?thesis by (simp add: mult.assoc mult.left_commute mult.commute)
  qed
  then show ?case using l by blast
qed

lemma tables_eq: "tables n b acc = map (\<lambda>i. (evens ^^ i) b) (rev [0..<n]) @ acc"
proof (induction n arbitrary: b acc)
  case 0
  then show ?case by simp
next
  case (Suc n)
  have u: "[0..<Suc n] = 0 # map Suc [0..<n]"
    by (simp only: map_Suc_upt upt_conv_Cons [OF zero_less_Suc])
  have "map (\<lambda>i. (evens ^^ i) b) (rev [0..<Suc n])
      = map (\<lambda>i. (evens ^^ i) (evens b)) (rev [0..<n]) @ [b]"
    unfolding u by (simp add: rev_map o_def funpow_swap1 del: upt_Suc)
  then show ?case using Suc [of "evens b" "b # acc"] by (simp del: upt_Suc)
qed

lemma table_stage:
  assumes k: "1 \<le> k" "k \<le> FFT_ORDER" and m: "m < 2 ^ (FFT_ORDER - k)"
  shows "length ((evens ^^ (k - 1)) base) = 2 ^ (FFT_ORDER - k)"
    and "(evens ^^ (k - 1)) base ! m
          = (SineI ! (twiddle_index m k + 256), SineI ! twiddle_index m k)"
    and "twiddle_index m k < 512"
proof -
  have lb: "length base = 2 ^ 9" by (simp add: length_base)
  have k9: "k - 1 \<le> 9" "9 - (k - 1) = FFT_ORDER - k" using k by (simp_all add: FFT_ORDER_def)
  note F = funpow_evens [OF lb k9(1), unfolded k9(2)]
  show "length ((evens ^^ (k - 1)) base) = 2 ^ (FFT_ORDER - k)" using F by simp
  have j: "twiddle_index m k = m * 2 ^ (k - 1)" "twiddle_index m k < 512"
    using twiddle_index_less [OF k m] by (simp_all add: twiddle_index_def)
  show "twiddle_index m k < 512" using j by simp
  show "(evens ^^ (k - 1)) base ! m
          = (SineI ! (twiddle_index m k + 256), SineI ! twiddle_index m k)"
    using F m j base_nth [of "twiddle_index m k"] by simp
qed

lemma twiddle_table:
  assumes k: "1 \<le> k" "k \<le> FFT_ORDER" and m: "m < 2 ^ (FFT_ORDER - k)"
  shows "twiddle inverse' shift m k = W (tw_of inverse' shift ((evens ^^ (k - 1)) base ! m))"
    and "inr (tw_of inverse' shift ((evens ^^ (k - 1)) base ! m))"
proof -
  define j where "j = twiddle_index m k"
  define c where "c = SineI ! (j + 256)"
  define s where "s = SineI ! j"
  have t: "(evens ^^ (k - 1)) base ! m = (c, s)" and j: "j < 512"
    unfolding c_def s_def j_def using table_stage [OF k m] by simp_all
  have js: "j < 768" "j + 256 < 768" using j by simp_all
  have cw: "Sine ! (j + 256) = word_of_int c" and cr: "- 32767 \<le> c" "c \<le> 32767"
    unfolding c_def using SineI_nth [OF js(2)] by simp_all
  have sw: "Sine ! j = word_of_int s" and sr: "- 32767 \<le> s" "s \<le> 32767"
    unfolding s_def using SineI_nth [OF js(1)] by simp_all
  have ir: "inr (c, s)" using cr sr by (simp add: inr_def)
  show "inr (tw_of inverse' shift ((evens ^^ (k - 1)) base ! m))"
    unfolding t using inr_tw_of [OF ir] sr by simp
  have hc: "(word_of_int (hv shift c) :: int16) = (if shift then c_div2 (word_of_int c) else word_of_int c)"
    using cr by (intro word_hv) simp_all
  have hs: "(word_of_int (hv shift s) :: int16) = (if shift then c_div2 (word_of_int s) else word_of_int s)"
    using sr by (intro word_hv) simp_all
  have hn: "(word_of_int (hv shift (- s)) :: int16)
      = (if shift then c_div2 (- word_of_int s) else - word_of_int s)"
    using sr word_hv [of "- s" shift] by simp
  show "twiddle inverse' shift m k = W (tw_of inverse' shift ((evens ^^ (k - 1)) base ! m))"
    unfolding t twiddle_def Let_def j_def [symmetric]
    using cw sw hc hs hn by (cases inverse') (simp_all add: W_def FFT_SIZE_def)
qed

lemma stage_ev_correct:
  assumes lx: "length xs = FFT_SIZE" and ix: "\<forall>x\<in>set xs. inr x"
    and k: "1 \<le> k" "k \<le> FFT_ORDER" and sc: "sc < 65535"
  shows "stage inverse' k (2 ^ (FFT_ORDER - k)) (unz xs, sc)
           = (unz (fst (stage_ev (bf wrap16) inverse' ((evens ^^ (k - 1)) base) (xs, sc))),
              snd (stage_ev (bf wrap16) inverse' ((evens ^^ (k - 1)) base) (xs, sc)))"
    and "length (fst (stage_ev (bf wrap16) inverse' ((evens ^^ (k - 1)) base) (xs, sc))) = FFT_SIZE"
    and "\<forall>y\<in>set (fst (stage_ev (bf wrap16) inverse' ((evens ^^ (k - 1)) base) (xs, sc))). inr y"
    and "snd (stage_ev (bf wrap16) inverse' ((evens ^^ (k - 1)) base) (xs, sc)) \<le> sc + 1"
proof -
  define step :: nat where "step = 2 ^ (FFT_ORDER - k)"
  define t where "t = (evens ^^ (k - 1)) base"
  define sh where "sh = scan False xs"
  have s: "0 < step" unfolding step_def by simp
  have "(2::nat) ^ (k - 1) * (2 * 2 ^ (FFT_ORDER - k)) = 2 ^ ((k - 1) + 1 + (FFT_ORDER - k))"
    by (simp add: power_add)
  also have "(k - 1) + 1 + (FFT_ORDER - k) = 10" using k by (simp add: FFT_ORDER_def)
  finally have n: "FFT_SIZE = 2 ^ (k - 1) * (2 * step)"
    unfolding step_def by (simp add: FFT_SIZE_def)
  have lt: "length t = step" unfolding t_def step_def
    using table_stage(1) [OF k, of 0] by simp
  have tw: "twiddle inverse' sh m k = W (tw_of inverse' sh (t ! m)) \<and> inr (tw_of inverse' sh (t ! m))"
    if "m < step" for m
    using twiddle_table [OF k, of m] that unfolding step_def t_def by simp
  note B = stage_blocks [OF lx ix n s lt tw]
  have E: "(\<exists>j<FFT_SIZE. out_of_range (fst (unz xs) ! j) (snd (unz xs) ! j)) = sh"
    unfolding sh_def by (rule exceeds_unz [OF lx ix])
  have ev: "stage_ev (bf wrap16) inverse' t (xs, sc)
      = (blocks xs (bf wrap16 sh) (map (tw_of inverse' sh) t) xs, bump sh sc)"
    by (simp add: stage_sh_def sh_def)
  have bm: "(if sh then (sc + 1) mod 65536 else sc) = bump sh sc"
    using sc by (cases sh) simp_all
  have "stage inverse' k step ((fst (unz xs), snd (unz xs)), sc)
      = (for_loop 0 step 1 (group_pass inverse' sh k step) (fst (unz xs), snd (unz xs)),
         bump sh sc)"
    by (simp only: stage_eq E bm)
  then have "stage inverse' k step (unz xs, sc)
      = (for_loop 0 step 1 (group_pass inverse' sh k step) (unz xs), bump sh sc)"
    by (simp only: prod.collapse)
  then show "stage inverse' k (2 ^ (FFT_ORDER - k)) (unz xs, sc)
           = (unz (fst (stage_ev (bf wrap16) inverse' ((evens ^^ (k - 1)) base) (xs, sc))),
              snd (stage_ev (bf wrap16) inverse' ((evens ^^ (k - 1)) base) (xs, sc)))"
    unfolding step_def [symmetric] t_def [symmetric] ev using B(1) by simp
  show "length (fst (stage_ev (bf wrap16) inverse' ((evens ^^ (k - 1)) base) (xs, sc))) = FFT_SIZE"
    unfolding t_def [symmetric] ev using B(3) by simp
  show "\<forall>y\<in>set (fst (stage_ev (bf wrap16) inverse' ((evens ^^ (k - 1)) base) (xs, sc))). inr y"
    unfolding t_def [symmetric] ev using B(2) by simp
  show "snd (stage_ev (bf wrap16) inverse' ((evens ^^ (k - 1)) base) (xs, sc)) \<le> sc + 1"
    unfolding t_def [symmetric] ev by (cases sh) simp_all
qed

lemma stages_ev_correct:
  "k \<le> FFT_ORDER \<Longrightarrow> length xs = FFT_SIZE \<Longrightarrow> \<forall>x\<in>set xs. inr x \<Longrightarrow> sc + k < 65536 \<Longrightarrow>
   stages inverse' k (2 ^ (FFT_ORDER - k)) (unz xs, sc)
     = (unz (fst (stages_ev (bf wrap16) inverse' (map (\<lambda>i. (evens ^^ i) base) (rev [0..<k])) (xs, sc))),
        snd (stages_ev (bf wrap16) inverse' (map (\<lambda>i. (evens ^^ i) base) (rev [0..<k])) (xs, sc)))
   \<and> length (fst (stages_ev (bf wrap16) inverse' (map (\<lambda>i. (evens ^^ i) base) (rev [0..<k])) (xs, sc)))
       = FFT_SIZE
   \<and> (\<forall>y\<in>set (fst (stages_ev (bf wrap16) inverse' (map (\<lambda>i. (evens ^^ i) base) (rev [0..<k])) (xs, sc))).
         inr y)"
proof (induction k arbitrary: xs sc)
  case 0
  then show ?case by simp
next
  case (Suc k)
  define r1 where "r1 = stage_ev (bf wrap16) inverse' ((evens ^^ k) base) (xs, sc)"
  have k1: "1 \<le> Suc k" "Suc k \<le> FFT_ORDER" using Suc.prems by simp_all
  have sc: "sc < 65535" using Suc.prems by simp
  have S: "stage inverse' (Suc k) (2 ^ (FFT_ORDER - Suc k)) (unz xs, sc) = (unz (fst r1), snd r1)"
    "length (fst r1) = FFT_SIZE" "\<forall>y\<in>set (fst r1). inr y" "snd r1 \<le> sc + 1"
    using stage_ev_correct [OF Suc.prems(2,3) k1 sc, of inverse']
    unfolding r1_def by (simp_all only: diff_Suc_1)
  have st: "2 ^ (FFT_ORDER - Suc k) * 2 mod 65536 = (2 ^ (FFT_ORDER - k) :: nat)"
  proof -
    have "FFT_ORDER - k = Suc (FFT_ORDER - Suc k)" using k1 by simp
    then have e: "(2 ^ (FFT_ORDER - Suc k) * 2 :: nat) = 2 ^ (FFT_ORDER - k)" by simp
    have "(2 ^ (FFT_ORDER - k) :: nat) \<le> 2 ^ 10"
      by (intro power_increasing) (simp_all add: FFT_ORDER_def)
    then show ?thesis unfolding e by simp
  qed
  have kk: "k \<le> FFT_ORDER" using k1 by simp
  have sk: "snd r1 + k < 65536" using S(4) Suc.prems(4) by simp
  note IH = Suc.IH [OF kk S(2) S(3) sk]
  have L: "map (\<lambda>i. (evens ^^ i) base) (rev [0..<Suc k])
      = (evens ^^ k) base # map (\<lambda>i. (evens ^^ i) base) (rev [0..<k])"
    by simp
  have ev: "stages_ev (bf wrap16) inverse' (map (\<lambda>i. (evens ^^ i) base) (rev [0..<Suc k])) (xs, sc)
      = stages_ev (bf wrap16) inverse' (map (\<lambda>i. (evens ^^ i) base) (rev [0..<k])) (fst r1, snd r1)"
    unfolding L r1_def by simp
  have "stages inverse' (Suc k) (2 ^ (FFT_ORDER - Suc k)) (unz xs, sc)
      = stages inverse' k (2 ^ (FFT_ORDER - k)) (unz (fst r1), snd r1)"
    using S(1) st by simp
  then show ?case unfolding ev using IH by simp
qed

lemma unz_brev: "unz (brev n xs) = (brev n (fst (unz xs)), brev n (snd (unz xs)))"
  by (simp add: unz_def brev_map)

text \<open>The transform of the buffers of a list of integer samples.\<close>

lemma fft_ev_correct:
  assumes lx: "length xs = FFT_SIZE" and ix: "\<forall>x\<in>set xs. inr x"
  shows "fix_fft (fst (unz xs)) (snd (unz xs)) inverse'
           = (unz (fst (fft_ev (bf wrap16) inverse' xs)), snd (fft_ev (bf wrap16) inverse' xs))"
    and "length (fst (fft_ev (bf wrap16) inverse' xs)) = FFT_SIZE"
    and "\<forall>y\<in>set (fst (fft_ev (bf wrap16) inverse' xs)). inr y"
proof -
  have t: "tables ten base [] = map (\<lambda>i. (evens ^^ i) base) (rev [0..<FFT_ORDER])"
    by (simp add: tables_eq ten_def FFT_ORDER_def eval_nat_numeral del: upt_Suc)
  have "length (fst (unz xs)) = FFT_SIZE" "length (snd (unz xs)) = FFT_SIZE"
    using lx by (simp_all add: unz_def)
  then have "reorder (fst (unz xs), snd (unz xs))
      = (brev ten (fst (unz xs)), brev ten (snd (unz xs)))"
    by (rule reorder_brev)
  then have r: "reorder (fst (unz xs), snd (unz xs)) = unz (brev ten xs)"
    by (simp only: unz_brev)
  have lb: "length (brev ten xs) = FFT_SIZE" using lx by simp
  have ib: "\<forall>x\<in>set (brev ten xs). inr x" using ix by simp
  have z: "(0::nat) + FFT_ORDER < 65536" by (simp add: FFT_ORDER_def)
  note S = stages_ev_correct [OF order_refl lb ib z, of inverse', simplified]
  have e: "fft_ev (bf wrap16) inverse' xs
      = stages_ev (bf wrap16) inverse' (map (\<lambda>i. (evens ^^ i) base) (rev [0..<FFT_ORDER])) (brev ten xs, 0)"
    by (simp add: fft_ev_def t)
  show "fix_fft (fst (unz xs)) (snd (unz xs)) inverse'
           = (unz (fst (fft_ev (bf wrap16) inverse' xs)), snd (fft_ev (bf wrap16) inverse' xs))"
    unfolding e fix_fft_def r using S by simp
  show "length (fst (fft_ev (bf wrap16) inverse' xs)) = FFT_SIZE" unfolding e using S by simp
  show "\<forall>y\<in>set (fst (fft_ev (bf wrap16) inverse' xs)). inr y" unfolding e using S by simp
qed

section \<open>Transforms of particular signals\<close>

lemma all_cells_iff: "all_cells b c xs = (b \<and> (\<forall>x\<in>set xs. x = c))"
  by (induction b c xs rule: all_cells.induct) auto

lemma same_cells_iff: "same_cells b xs ys = (b \<and> xs = ys)"
  by (induction b xs ys rule: same_cells.induct) auto

lemma close_to_all2:
  "close_to b f tr ti ys rs \<Longrightarrow>
     b \<and> list_all2 (\<lambda>(yr, yi) r. \<bar>yr * f - 2 * r\<bar> \<le> tr \<and> \<bar>yi * f\<bar> \<le> ti) ys rs"
  by (induction b f tr ti ys rs rule: close_to.induct) auto

lemma const_cells:
  assumes "\<forall>x\<in>set xs. x = c"
  shows "xs = replicate (length xs) c"
  using assms by (simp add: replicate_length_same)

lemma unz_replicate: "unz (replicate n (a, b)) = (replicate n (word_of_int a), replicate n (word_of_int b))"
  by (simp add: unz_def)

lemma inr_update:
  assumes "\<forall>x\<in>set xs. inr x" "inr v"
  shows "\<forall>x\<in>set (xs[i := v]). inr x"
  using assms set_update_subset_insert [of xs i v] by auto

lemma inr_replicate: "inr c \<Longrightarrow> \<forall>x\<in>set (replicate n c). inr x"
  by simp

lemma sint_unz:
  assumes "\<forall>x\<in>set ys. inr x"
  shows "zip (map sint (fst (unz ys))) (map sint (snd (unz ys))) = ys"
proof -
  have "(sint (word_of_int (fst y) :: int16), sint (word_of_int (snd y) :: int16)) = y"
    if "y \<in> set ys" for y
    using assms that by (simp add: inr_def sint_of_int16 prod_eq_iff)
  then have "map (\<lambda>y. (sint (word_of_int (fst y) :: int16), sint (word_of_int (snd y) :: int16))) ys
      = map (\<lambda>y. y) ys"
    by (intro map_cong) auto
  then show ?thesis by (simp add: unz_def zip_map_map zip_same_conv_map o_def)
qed

lemma replicate_update_same [simp]: "(replicate n x)[i := x] = replicate n x"
proof (cases "i < n")
  case True
  then show ?thesis by (intro nth_equalityI) (auto simp: nth_list_update)
next
  case False
  then have "length (replicate n x) \<le> i" by simp
  then show ?thesis by (rule list_update_beyond)
qed

text \<open>The four inputs as buffers.\<close>

lemma zero_input_ok:
  "length zero_input = FFT_SIZE" "\<forall>x\<in>set zero_input. inr x"
  "unz zero_input = (replicate FFT_SIZE 0, replicate FFT_SIZE 0)"
  by (simp_all add: zero_input_def inr_def unz_def)

lemma impulse_input_ok:
  "length impulse_input = FFT_SIZE" "\<forall>x\<in>set impulse_input. inr x"
  "unz impulse_input = ((replicate FFT_SIZE 0)[0 := 32767], replicate FFT_SIZE 0)"
proof -
  show "length impulse_input = FFT_SIZE" by (simp add: impulse_input_def)
  show "\<forall>x\<in>set impulse_input. inr x"
    unfolding impulse_input_def by (intro inr_update inr_replicate) (simp_all add: inr_def)
  show "unz impulse_input = ((replicate FFT_SIZE 0)[0 := 32767], replicate FFT_SIZE 0)"
    by (simp add: impulse_input_def unz_def map_update list_update_same_conv FFT_SIZE_def)
qed

lemma mirrored_input_ok:
  "length mirrored_input = FFT_SIZE" "\<forall>x\<in>set mirrored_input. inr x"
  "unz mirrored_input = ((replicate FFT_SIZE 0)[1 := 32767, 1023 := 32767], replicate FFT_SIZE 0)"
proof -
  show "length mirrored_input = FFT_SIZE" by (simp add: mirrored_input_def)
  show "\<forall>x\<in>set mirrored_input. inr x"
    unfolding mirrored_input_def by (intro inr_update inr_replicate) (simp_all add: inr_def)
  show "unz mirrored_input
      = ((replicate FFT_SIZE 0)[1 := 32767, 1023 := 32767], replicate FFT_SIZE 0)"
    by (simp add: mirrored_input_def unz_def map_update list_update_same_conv FFT_SIZE_def)
qed

lemma overflow_input_ok:
  "length overflow_input = FFT_SIZE" "\<forall>x\<in>set overflow_input. inr x"
  "unz overflow_input
     = ((replicate FFT_SIZE 0)[0 := 32767, 128 := 32767], (replicate FFT_SIZE 0)[128 := 32767])"
proof -
  show "length overflow_input = FFT_SIZE" by (simp add: overflow_input_def)
  show "\<forall>x\<in>set overflow_input. inr x"
    unfolding overflow_input_def by (intro inr_update inr_replicate) (simp_all add: inr_def)
  show "unz overflow_input
     = ((replicate FFT_SIZE 0)[0 := 32767, 128 := 32767], (replicate FFT_SIZE 0)[128 := 32767])"
    by (simp add: overflow_input_def unz_def map_update list_update_same_conv FFT_SIZE_def)
qed

text \<open>A transform whose evaluation gives the same sample everywhere.\<close>

lemma const_transform:
  assumes lx: "length xs = FFT_SIZE" and ix: "\<forall>x\<in>set xs. inr x"
    and c: "const_result (a, b) n (fft_ev (bf wrap16) inverse' xs)"
  shows "fix_fft (fst (unz xs)) (snd (unz xs)) inverse'
           = ((replicate FFT_SIZE (word_of_int a), replicate FFT_SIZE (word_of_int b)), n)"
proof -
  obtain ys sc where e: "fft_ev (bf wrap16) inverse' xs = (ys, sc)" by (cases "fft_ev (bf wrap16) inverse' xs")
  have "sc = n" "\<forall>y\<in>set ys. y = (a, b)" using c unfolding e by (simp_all add: all_cells_iff)
  moreover have "length ys = FFT_SIZE" using fft_ev_correct(2) [OF lx ix, of inverse'] unfolding e by simp
  ultimately have ys: "ys = replicate FFT_SIZE (a, b)" "sc = n"
    using const_cells [of ys "(a, b)"] by simp_all
  show ?thesis
    using fft_ev_correct(1) [OF lx ix, of inverse'] unfolding e ys by (simp add: unz_replicate)
qed

lemma zero_forward_eval: "const_result (0, 0) 0 (fft_ev (bf wrap16) False zero_input)"
  by code_simp

lemma zero_inverse_eval: "const_result (0, 0) 0 (fft_ev (bf wrap16) True zero_input)"
  by code_simp

lemma zero_transform:
  "fix_fft (replicate FFT_SIZE 0) (replicate FFT_SIZE 0) inverse'
     = ((replicate FFT_SIZE 0, replicate FFT_SIZE 0), 0)"
proof -
  have "const_result (0, 0) 0 (fft_ev (bf wrap16) inverse' zero_input)"
    using zero_forward_eval zero_inverse_eval by (cases inverse') simp_all
  from const_transform [OF zero_input_ok(1,2) this] show ?thesis
    by (simp add: zero_input_ok(3))
qed

lemma impulse_forward_eval: "const_result (16383, 0) 1 (fft_ev (bf wrap16) False impulse_input)"
  by code_simp

lemma impulse_transform:
  "fix_fft ((replicate FFT_SIZE 0)[0 := 32767]) (replicate FFT_SIZE 0) False
     = ((replicate FFT_SIZE 16383, replicate FFT_SIZE 0), 1)"
  using const_transform [OF impulse_input_ok(1,2) impulse_forward_eval]
  by (simp add: impulse_input_ok(3))

section \<open>The scale exponent counts the stages that shift\<close>

lemma count_stage_states:
  "snd s + k < 65536 \<Longrightarrow>
   snd (stages inverse' k step s)
     = snd s + length (filter exceeds (butlast (stage_states inverse' k step s)))"
proof (induction k arbitrary: step s)
  case 0
  then show ?case by simp
next
  case (Suc k)
  let ?s' = "stage inverse' (Suc k) step s"
  have s': "snd ?s' = (if exceeds s then snd s + 1 else snd s)"
    using Suc.prems by (simp add: snd_stage)
  then have "snd ?s' + k < 65536" using Suc.prems by simp
  from Suc.IH [OF this] show ?case using s' by simp
qed

lemma scale_is_count:
  "snd (fix_fft fr fi inverse')
     = length (filter exceeds (butlast (stage_states inverse' FFT_ORDER 1 (reorder (fr, fi), 0))))"
  using count_stage_states [of "(reorder (fr, fi), 0)" FFT_ORDER inverse' 1]
  by (simp add: fix_fft_def FFT_ORDER_def)

text \<open>
  Claim C9. For the all-zero input fix\_fft leaves both buffers all zero and returns the
  scale exponent 0, in the forward and in the inverse direction. For every input, the
  returned scale exponent is the number of stages whose range scan found a sample out of
  range (the states at the entry of the ten stages for which \<open>exceeds\<close> holds, which is
  the \<open>shift\<close> flag of the range scan); so of two runs, the one with no more such stages
  returns no larger a scale exponent.
\<close>

theorem scale_counts_shift_stages:
  "fix_fft (replicate FFT_SIZE 0) (replicate FFT_SIZE 0) inverse'
     = ((replicate FFT_SIZE 0, replicate FFT_SIZE 0), 0)
   \<and> snd (fix_fft (replicate FFT_SIZE 0) (replicate FFT_SIZE 0) inverse') = 0
   \<and> exceeds ((r, i), sc) = fst (range_scan 0 r i sc)
   \<and> snd (fix_fft fr fi inverse')
       = length (filter exceeds (butlast (stage_states inverse' FFT_ORDER 1 (reorder (fr, fi), 0))))
   \<and> (length (filter exceeds (butlast (stage_states iv1 FFT_ORDER 1 (reorder (fr1, fi1), 0))))
         \<le> length (filter exceeds (butlast (stage_states iv2 FFT_ORDER 1 (reorder (fr2, fi2), 0))))
        \<longrightarrow> snd (fix_fft fr1 fi1 iv1) \<le> snd (fix_fft fr2 fi2 iv2))"
proof (intro conjI impI)
  show "fix_fft (replicate FFT_SIZE 0) (replicate FFT_SIZE 0) inverse'
     = ((replicate FFT_SIZE 0, replicate FFT_SIZE 0), 0)"
    by (rule zero_transform)
  then show "snd (fix_fft (replicate FFT_SIZE 0) (replicate FFT_SIZE 0) inverse') = 0"
    by simp
  show "exceeds ((r, i), sc) = fst (range_scan 0 r i sc)"
    by (simp add: exceeds_def range_scan_pair)
  show "snd (fix_fft fr fi inverse')
       = length (filter exceeds (butlast (stage_states inverse' FFT_ORDER 1 (reorder (fr, fi), 0))))"
    by (rule scale_is_count)
  assume "length (filter exceeds (butlast (stage_states iv1 FFT_ORDER 1 (reorder (fr1, fi1), 0))))
         \<le> length (filter exceeds (butlast (stage_states iv2 FFT_ORDER 1 (reorder (fr2, fi2), 0))))"
  then show "snd (fix_fft fr1 fi1 iv1) \<le> snd (fix_fft fr2 fi2 iv2)"
    by (simp only: scale_is_count)
qed

theorem scale_counts_shift_stages_witness:
  "length (filter exceeds (butlast (stage_states True FFT_ORDER 1
       (reorder (replicate FFT_SIZE 0, replicate FFT_SIZE 0), 0))))
     \<le> length (filter exceeds (butlast (stage_states False FFT_ORDER 1
       (reorder ((replicate FFT_SIZE 0)[0 := 32767], replicate FFT_SIZE 0), 0))))
   \<and> snd (fix_fft (replicate FFT_SIZE 0) (replicate FFT_SIZE 0) True) = 0
   \<and> snd (fix_fft ((replicate FFT_SIZE 0)[0 := 32767]) (replicate FFT_SIZE 0) False) = 1
   \<and> snd (fix_fft (replicate FFT_SIZE 0) (replicate FFT_SIZE 0) True)
        \<le> snd (fix_fft ((replicate FFT_SIZE 0)[0 := 32767]) (replicate FFT_SIZE 0) False)"
proof -
  note T = scale_counts_shift_stages [of True _ _ _ "(replicate FFT_SIZE 0)[0 := 32767]"
      "replicate FFT_SIZE 0" True "replicate FFT_SIZE 0" "replicate FFT_SIZE 0" False
      "(replicate FFT_SIZE 0)[0 := 32767]" "replicate FFT_SIZE 0"]
  have z: "snd (fix_fft (replicate FFT_SIZE 0) (replicate FFT_SIZE 0) True) = 0"
    using T by blast
  have c0: "length (filter exceeds (butlast (stage_states True FFT_ORDER 1
       (reorder (replicate FFT_SIZE 0, replicate FFT_SIZE 0), 0)))) = 0"
    using z scale_is_count [of "replicate FFT_SIZE 0" "replicate FFT_SIZE 0" True] by simp
  have i1: "snd (fix_fft ((replicate FFT_SIZE 0)[0 := 32767]) (replicate FFT_SIZE 0) False) = 1"
    by (simp add: impulse_transform)
  have h: "length (filter exceeds (butlast (stage_states True FFT_ORDER 1
       (reorder (replicate FFT_SIZE 0, replicate FFT_SIZE 0), 0))))
     \<le> length (filter exceeds (butlast (stage_states False FFT_ORDER 1
       (reorder ((replicate FFT_SIZE 0)[0 := 32767], replicate FFT_SIZE 0), 0))))"
    unfolding c0 by simp
  have "snd (fix_fft (replicate FFT_SIZE 0) (replicate FFT_SIZE 0) True)
        \<le> snd (fix_fft ((replicate FFT_SIZE 0)[0 := 32767]) (replicate FFT_SIZE 0) False)"
    using T h by blast
  then show ?thesis using h z i1 by blast
qed

section \<open>The impulse, forward\<close>

text \<open>
  Claim C6. For the impulse \<open>fr[0] = 32767\<close>, all other samples of \<open>fr\<close> and \<open>fi\<close> zero,
  the forward transform produces a flat spectrum: every bin is \<open>16383 + 0i\<close>. The
  returned scale exponent is 1, not 0: the range scan of the first stage finds
  \<open>32767 > 0x3fff\<close>, in the forward direction as in the inverse one.
\<close>

theorem impulse_forward_scale:
  "fix_fft ((replicate FFT_SIZE 0)[0 := 32767]) (replicate FFT_SIZE 0) False
     = ((replicate FFT_SIZE 16383, replicate FFT_SIZE 0), 1)
   \<and> snd (fix_fft ((replicate FFT_SIZE 0)[0 := 32767]) (replicate FFT_SIZE 0) False) \<noteq> 0"
  by (simp add: impulse_transform)

section \<open>Two mirrored bins, inverse\<close>

lemma mirrored_eval:
  "mirrored_check (fft_ev (bf wrap16) True mirrored_input) (wide_fft True mirrored_input)"
  by code_simp

text \<open>
  Claim C5. For the input whose bins 1 and 1023 hold \<open>32767 + 0i\<close>, all other samples
  zero, the inverse transform returns the scale exponent 2, which is positive; its 1024
  output samples are those of the same transform in unbounded integer arithmetic, which
  returns the same exponent, so that no narrowing to 16 bits changed a value; and every
  output sample, multiplied by \<open>2 ^ 2\<close>, is within 20 (real part) and 12 (imaginary part) of
  \<open>2 * 32767 * cos (2 * pi * n / 1024)\<close>, the cosine taken from the table.
\<close>

theorem mirrored_bins_inverse:
  "unz mirrored_input = ((replicate FFT_SIZE 0)[1 := 32767, 1023 := 32767], replicate FFT_SIZE 0)
   \<and> (case fix_fft ((replicate FFT_SIZE 0)[1 := 32767, 1023 := 32767]) (replicate FFT_SIZE 0) True of
        ((fr', fi'), scale) \<Rightarrow>
          0 < scale \<and> scale = 2
        \<and> wide_fft True mirrored_input = (zip (map sint fr') (map sint fi'), scale)
        \<and> list_all2 (\<lambda>(x, y) r. \<bar>x * 2 ^ scale - 2 * r\<bar> \<le> 20 \<and> \<bar>y * 2 ^ scale\<bar> \<le> 12)
             (zip (map sint fr') (map sint fi')) cos_ref)"
proof -
  obtain ys sc where e: "fft_ev (bf wrap16) True mirrored_input = (ys, sc)"
    by (cases "fft_ev (bf wrap16) True mirrored_input")
  obtain ws sw where w: "wide_fft True mirrored_input = (ws, sw)"
    by (cases "wide_fft True mirrored_input")
  have m: "sc = 2 \<and> sw = 2 \<and> same_cells True ys ws \<and> close_to True 4 20 12 ys cos_ref"
    using mirrored_eval unfolding e w by simp
  have c: "sc = 2" "sw = 2" "ys = ws" "close_to True 4 20 12 ys cos_ref"
    using m by (blast, blast, simp add: same_cells_iff, blast)
  have cl: "list_all2 (\<lambda>(yr, yi) r. \<bar>yr * 4 - 2 * r\<bar> \<le> 20 \<and> \<bar>yi * 4\<bar> \<le> 12) ys cos_ref"
    using close_to_all2 [OF c(4)] by simp
  note F = fft_ev_correct [OF mirrored_input_ok(1,2), of True, unfolded e mirrored_input_ok(3)]
  have f: "fix_fft ((replicate FFT_SIZE 0)[1 := 32767, 1023 := 32767]) (replicate FFT_SIZE 0) True
      = ((fst (unz ys), snd (unz ys)), 2)"
    using F(1) c(1) by simp
  have z: "zip (map sint (fst (unz ys))) (map sint (snd (unz ys))) = ys"
    using F(3) by (intro sint_unz) simp
  show ?thesis
    unfolding mirrored_input_ok(3) f prod.case
    using z w c cl by simp
qed

section \<open>A round trip\<close>

lemma overflow_eval:
  "round_trip_check (round_trip (fft_ev (bf wrap16) False overflow_input))"
  by code_simp

lemma overflow_wide_eval: "wide_check (wide_fft False overflow_input)"
  by code_simp

text \<open>
  Claim C1, at the input \<open>fr[0] = 32767\<close>, \<open>fr[128] = 32767\<close>, \<open>fi[128] = 32767\<close>, all other
  samples zero. The forward transform returns \<open>s1 = 2\<close> and the inverse transform of its
  result returns \<open>s2 = 8\<close>; sample 0 was 32767 and is reconstructed, after the
  multiplication by \<open>2 ^ (s1 + s2)\<close> and the division by 1024, as 16381. A sum of the
  forward transform was narrowed to 16 bits: bin 1 is stored as \<open>- 12992\<close> with two
  halvings, whereas the same stages in unbounded integer arithmetic give 9887 with three
  halvings.
\<close>

theorem round_trip_overflow:
  "unz overflow_input
     = ((replicate FFT_SIZE 0)[0 := 32767, 128 := 32767], (replicate FFT_SIZE 0)[128 := 32767])
   \<and> (case fix_fft ((replicate FFT_SIZE 0)[0 := 32767, 128 := 32767])
                  ((replicate FFT_SIZE 0)[128 := 32767]) False of
        ((Fr, Fi), s1) \<Rightarrow>
          (case fix_fft Fr Fi True of
             ((Rr, Ri), s2) \<Rightarrow>
               s1 = 2 \<and> s2 = 8
             \<and> sint (((replicate FFT_SIZE 0)[0 := 32767, 128 := 32767] :: int16 list) ! 0) = 32767
             \<and> sint (Rr ! 0) = 16381
             \<and> sint (Rr ! 0) * 2 ^ (s1 + s2) div int FFT_SIZE = 16381
             \<and> sint (Fr ! 1) = - 12992
             \<and> fst (wide_fft False overflow_input) ! 1 = (9887, 0)
             \<and> snd (wide_fft False overflow_input) = 3))"
proof -
  obtain ys s1 where e1: "fft_ev (bf wrap16) False overflow_input = (ys, s1)"
    by (cases "fft_ev (bf wrap16) False overflow_input")
  obtain zs s2 where e2: "fft_ev (bf wrap16) True ys = (zs, s2)"
    by (cases "fft_ev (bf wrap16) True ys")
  obtain ws sw where w: "wide_fft False overflow_input = (ws, sw)"
    by (cases "wide_fft False overflow_input")
  have c: "s1 = 2" "s2 = 8" "take 2 ys = [(16383, 8191), (- 12992, 0)]" "take 1 zs = [(16381, 0)]"
    using overflow_eval unfolding e1 by (simp_all add: e2)
  have cw: "sw = 3" "take 2 ws = [(8191, 4095), (9887, 0)]"
    using overflow_wide_eval unfolding w by simp_all
  have "take 2 ys ! 1 = ys ! 1" by (intro nth_take) simp
  then have y1: "ys ! 1 = (- 12992, 0)" unfolding c(3) by simp
  have "take 1 zs ! 0 = zs ! 0" by (intro nth_take) simp
  then have z0: "zs ! 0 = (16381, 0)" unfolding c(4) by simp
  have "take 2 ws ! 1 = ws ! 1" by (intro nth_take) simp
  then have w1: "ws ! 1 = (9887, 0)" unfolding cw(2) by simp
  note F = fft_ev_correct [OF overflow_input_ok(1,2), of False, unfolded e1 overflow_input_ok(3)]
  have ly: "length ys = FFT_SIZE" and iy: "\<forall>y\<in>set ys. inr y" using F(2,3) by simp_all
  note G = fft_ev_correct [OF ly iy, of True, unfolded e2]
  have lz: "length zs = FFT_SIZE" using G(2) by simp
  have f: "fix_fft ((replicate FFT_SIZE 0)[0 := 32767, 128 := 32767])
                  ((replicate FFT_SIZE 0)[128 := 32767]) False
      = ((fst (unz ys), snd (unz ys)), 2)"
    using F(1) c(1) by simp
  have g: "fix_fft (fst (unz ys)) (snd (unz ys)) True = ((fst (unz zs), snd (unz zs)), 8)"
    using G(1) c(2) by simp
  have o: "(1::nat) < FFT_SIZE" "(0::nat) < FFT_SIZE" by (simp_all add: FFT_SIZE_def)
  have Fr1: "sint (fst (unz ys) ! 1) = - 12992"
    using y1 ly o by (simp add: unz_def)
  have Rr0: "sint (fst (unz zs) ! 0) = 16381"
    using z0 lz o by (simp add: unz_def)
  have in0: "sint (((replicate FFT_SIZE 0)[0 := 32767, 128 := 32767] :: int16 list) ! 0) = 32767"
    by (simp add: FFT_SIZE_def)
  show ?thesis
    unfolding overflow_input_ok(3) f g prod.case
    using Fr1 Rr0 in0 w cw(1) w1
    by (simp add: FFT_SIZE_def)
qed

end
